theory Spec2Isabelle
  imports Main "HOL-Library.Word" "HOL-Library.Multiset"
begin

unbundle bit_operations_syntax

section \<open>Bytes and errors\<close>

text \<open>
  A \<open>vector<uint8_t>\<close> and the bytes of a \<open>std::string\<close> are both lists of 8-bit
  words. The 16-bit and 32-bit header fields are words, and wrap around as in the source.
  Sizes and offsets (\<open>size_t\<close>) are natural numbers. The only arithmetic of
  \<open>packet.cc\<close> on them is \<open>MAXIMUM_PAYLOAD * fragment_no\<close> and \<open>first_byte + length\<close>
  in the outgoing \<open>Packet\<close> constructor: in the loop of the outgoing frame the product is 0
  or the \<open>next_fragment_start\<close> of the iteration before, which is below the size of the
  frame when the loop goes on, and the sum is at most that size, so neither leaves the
  range of \<open>size_t\<close>.
\<close>

type_synonym byte = "8 word"

text \<open>
  The source throws \<open>runtime_error\<close> with a message, or stops at an \<open>assert\<close>. The
  model returns one of the following values:
  \<^item> \<open>MalformedPacket\<close>: the two throws of the incoming \<open>Packet\<close> constructor
    (\<open>invalid packet: fragment_no_ >= fragments_in_this_frame\<close> and \<open>invalid packet:
    empty payload\<close>) and a read of the byte cursor past the end of the buffer;
  \<^item> \<open>ProtocolMismatch\<close>: the four throws of \<open>sanity_check\<close>;
  \<^item> \<open>IncompleteFrame\<close>: \<open>attempt to send unfinished FragmentedFrame\<close> and \<open>attempt
    to build frame from unfinished FragmentedFrame\<close>;
  \<^item> \<open>AssertionFailed\<close>: an \<open>assert\<close> whose condition is false;
  \<^item> \<open>UndefinedBehaviour\<close>: \<open>back()\<close> of an empty vector and an unchecked
    \<open>operator[]\<close> beyond the end of a vector.
\<close>

datatype error =
  MalformedPacket | ProtocolMismatch | IncompleteFrame | AssertionFailed | UndefinedBehaviour

section \<open>Header codec\<close>

text \<open>
  \<open>PacketUtils::put_header_field\<close> for \<open>uint16_t\<close> and for \<open>uint32_t\<close>: the bytes of
  \<open>htole16(n)\<close> (\<open>htole32(n)\<close>) in memory order, that is the least significant byte
  first on every host.
\<close>

definition put_header_field_u16 :: "16 word \<Rightarrow> byte list" where
  "put_header_field_u16 n = [ucast n, ucast (drop_bit 8 n)]"

definition put_header_field_u32 :: "32 word \<Rightarrow> byte list" where
  "put_header_field_u32 n =
     [ucast n, ucast (drop_bit 8 n), ucast (drop_bit 16 n), ucast (drop_bit 24 n)]"

section \<open>Byte cursor\<close>

text \<open>
  Modelled from the spec: the class \<open>Chunk\<close> used by the incoming constructors is not
  among the sources. Section 4.1 of the specification gives its contract: little-endian
  reads of fixed width at an offset and the suffix from an offset, each validating
  \<open>offset + width \<le> length\<close> and failing with MalformedPacket otherwise.
  \<open>str( o, 2 ).le16()\<close> is \<open>read_u16_le str o\<close>.
\<close>

definition read_u16_le :: "byte list \<Rightarrow> nat \<Rightarrow> error + 16 word" where
  "read_u16_le buf off =
     (if off + 2 \<le> length buf
      then Inr (ucast (buf ! off) OR push_bit 8 (ucast (buf ! (off + 1))))
      else Inl MalformedPacket)"

text \<open>
  Modelled from the spec: \<open>str( o, 4 ).le32()\<close> of the missing class \<open>Chunk\<close>, the
  32-bit little-endian read of section 4.1.
\<close>

definition read_u32_le :: "byte list \<Rightarrow> nat \<Rightarrow> error + 32 word" where
  "read_u32_le buf off =
     (if off + 4 \<le> length buf
      then Inr (ucast (buf ! off) OR push_bit 8 (ucast (buf ! (off + 1)))
                OR push_bit 16 (ucast (buf ! (off + 2)))
                OR push_bit 24 (ucast (buf ! (off + 3))))
      else Inl MalformedPacket)"

text \<open>
  Modelled from the spec: \<open>str( o ).to_string()\<close> of the missing class \<open>Chunk\<close>, the
  suffix \<open>rest(offset)\<close> of section 4.1.
\<close>

definition rest :: "byte list \<Rightarrow> nat \<Rightarrow> error + byte list" where
  "rest buf off = (if off \<le> length buf then Inr (drop off buf) else Inl MalformedPacket)"

section \<open>Packet\<close>

record Packet =
  valid :: bool
  connection_id :: "16 word"
  frame_no :: "32 word"
  fragment_no :: "16 word"
  fragments_in_this_frame :: "16 word"
  time_to_next :: "32 word"
  payload :: "byte list"

text \<open>
  The outgoing constructor: the slice of \<open>whole_frame\<close> that fragment \<open>fragment_no\<close>
  carries, and the value it leaves in \<open>next_fragment_start\<close>. \<open>PacketUtils::MAXIMUM_PAYLOAD\<close>
  is declared in the header, which is not among the sources: it is the first parameter.
\<close>

definition Packet_outgoing ::
  "nat \<Rightarrow> byte list \<Rightarrow> 16 word \<Rightarrow> 32 word \<Rightarrow> 16 word \<Rightarrow> 16 word \<Rightarrow> error + (Packet \<times> nat)"
where
  "Packet_outgoing MAXIMUM_PAYLOAD whole_frame cid fno fragno ttn =
     (if whole_frame = [] then Inl AssertionFailed
      else
        let first_byte = MAXIMUM_PAYLOAD * unat fragno in
        if \<not> first_byte < length whole_frame then Inl AssertionFailed
        else
          let len = min (length whole_frame - first_byte) MAXIMUM_PAYLOAD in
          if \<not> first_byte + len \<le> length whole_frame then Inl AssertionFailed
          else
            Inr (\<lparr>valid = True, connection_id = cid, frame_no = fno, fragment_no = fragno,
                   fragments_in_this_frame = 0, time_to_next = ucast ttn,
                   payload = take len (drop first_byte whole_frame)\<rparr>,
                 first_byte + len))"

text \<open>The incoming constructor: the members are read in the order of the initialiser list,
  then the two checks.\<close>

definition Packet_incoming :: "byte list \<Rightarrow> error + Packet" where
  "Packet_incoming str =
     (case read_u16_le str 0 of Inl e \<Rightarrow> Inl e | Inr cid \<Rightarrow>
      case read_u32_le str 2 of Inl e \<Rightarrow> Inl e | Inr fno \<Rightarrow>
      case read_u16_le str 6 of Inl e \<Rightarrow> Inl e | Inr fragno \<Rightarrow>
      case read_u16_le str 8 of Inl e \<Rightarrow> Inl e | Inr nfrags \<Rightarrow>
      case read_u32_le str 10 of Inl e \<Rightarrow> Inl e | Inr ttn \<Rightarrow>
      case rest str 14 of Inl e \<Rightarrow> Inl e | Inr pl \<Rightarrow>
        if fragno \<ge> nfrags then Inl MalformedPacket
        else if pl = [] then Inl MalformedPacket
        else Inr \<lparr>valid = True, connection_id = cid, frame_no = fno, fragment_no = fragno,
                   fragments_in_this_frame = nfrags, time_to_next = ttn, payload = pl\<rparr>)"

text \<open>The default constructor: an empty, invalid packet.\<close>

definition Packet_empty :: Packet where
  "Packet_empty = \<lparr>valid = False, connection_id = 0, frame_no = 0, fragment_no = 0,
                    fragments_in_this_frame = 0, time_to_next = 0, payload = []\<rparr>"

definition Packet_to_string :: "Packet \<Rightarrow> error + byte list" where
  "Packet_to_string p =
     (if \<not> fragments_in_this_frame p > 0 then Inl AssertionFailed
      else Inr (put_header_field_u16 (connection_id p)
                @ put_header_field_u32 (frame_no p)
                @ put_header_field_u16 (fragment_no p)
                @ put_header_field_u16 (fragments_in_this_frame p)
                @ put_header_field_u32 (time_to_next p)
                @ payload p))"

definition set_fragments_in_this_frame :: "Packet \<Rightarrow> 16 word \<Rightarrow> error + Packet" where
  "set_fragments_in_this_frame p x =
     (let p' = p\<lparr>fragments_in_this_frame := x\<rparr> in
      if \<not> fragment_no p' < fragments_in_this_frame p' then Inl AssertionFailed else Inr p')"

text \<open>
  Modelled from the spec: \<open>set_time_to_next\<close> is defined in the header, which is not among
  the sources. Section 4.4, step 2: it sets the hint on the fragment.
\<close>

definition set_time_to_next :: "Packet \<Rightarrow> 32 word \<Rightarrow> Packet" where
  "set_time_to_next p x = p\<lparr>time_to_next := x\<rparr>"

section \<open>FragmentedFrame\<close>

text \<open>
  The fields carry the names of the members, with \<open>ff\<close> in front where \<open>Packet\<close> has
  a field of the same name. The width of \<open>remaining_fragments_\<close> is declared in the
  header, which is not among the sources; it is initialised from a 16-bit count and is
  taken as a 32-bit unsigned counter, which wraps around when decremented at 0.
\<close>

record FragmentedFrame =
  ff_connection_id :: "16 word"
  ff_frame_no :: "32 word"
  ff_fragments_in_this_frame :: "16 word"
  fragments :: "Packet list"
  remaining_fragments :: "32 word"

subsection \<open>Outgoing construction\<close>

text \<open>
  The first loop of the outgoing constructor. Its counter is a \<open>uint16_t\<close> and wraps
  around; the loop ends when \<open>next_fragment_start\<close> reaches the size of the frame, and
  not before. A run that never ends is the value \<open>None\<close>.
\<close>

partial_function (option) emplace_loop ::
  "nat \<Rightarrow> byte list \<Rightarrow> 16 word \<Rightarrow> 32 word \<Rightarrow> 16 word \<Rightarrow> nat \<Rightarrow> Packet list
   \<Rightarrow> (error + Packet list) option"
where
  "emplace_loop MAXIMUM_PAYLOAD whole_frame cid fno fragno next_fragment_start frags =
     (if next_fragment_start < length whole_frame
      then
        (case Packet_outgoing MAXIMUM_PAYLOAD whole_frame cid fno fragno 0 of
           Inl e \<Rightarrow> Some (Inl e)
         | Inr (packet, next') \<Rightarrow>
             emplace_loop MAXIMUM_PAYLOAD whole_frame cid fno (fragno + 1) next'
               (frags @ [packet]))
      else Some (Inr frags))"

declare emplace_loop.simps [code]

text \<open>The second loop: \<open>set_fragments_in_this_frame\<close> on every packet, in order.\<close>

fun set_all_fragments_in_this_frame :: "Packet list \<Rightarrow> 16 word \<Rightarrow> error + Packet list" where
  "set_all_fragments_in_this_frame [] x = Inr []"
| "set_all_fragments_in_this_frame (p # ps) x =
     (case set_fragments_in_this_frame p x of
        Inl e \<Rightarrow> Inl e
      | Inr p' \<Rightarrow>
          (case set_all_fragments_in_this_frame ps x of
             Inl e \<Rightarrow> Inl e
           | Inr ps' \<Rightarrow> Inr (p' # ps')))"

text \<open>
  The outgoing constructor. For an empty frame the first loop builds nothing, and
  \<open>back()\<close> of the empty vector is undefined. \<open>fragments_in_this_frame_ =
  fragments_.size()\<close> narrows the size to 16 bits.
\<close>

definition FragmentedFrame_outgoing ::
  "nat \<Rightarrow> 16 word \<Rightarrow> 32 word \<Rightarrow> 32 word \<Rightarrow> byte list \<Rightarrow> (error + FragmentedFrame) option"
where
  "FragmentedFrame_outgoing MAXIMUM_PAYLOAD cid fno time_to_next_frame whole_frame =
     (case emplace_loop MAXIMUM_PAYLOAD whole_frame cid fno 0 0 [] of
        None \<Rightarrow> None
      | Some (Inl e) \<Rightarrow> Some (Inl e)
      | Some (Inr frags) \<Rightarrow>
          if frags = [] then Some (Inl UndefinedBehaviour)
          else
            let frags1 = butlast frags @ [set_time_to_next (last frags) time_to_next_frame];
                n = (word_of_nat (length frags1) :: 16 word)
            in (case set_all_fragments_in_this_frame frags1 n of
                  Inl e \<Rightarrow> Some (Inl e)
                | Inr frags2 \<Rightarrow>
                    Some (Inr \<lparr>ff_connection_id = cid, ff_frame_no = fno,
                               ff_fragments_in_this_frame = n, fragments = frags2,
                               remaining_fragments = 0\<rparr>)))"

subsection \<open>Incoming frames\<close>

text \<open>\<open>sanity_check\<close> is \<open>const\<close>: it returns the exception it throws, if any. The line it
  writes to \<open>cerr\<close> on a \<open>connection_id\<close> mismatch is not part of the frame's state.\<close>

definition sanity_check :: "FragmentedFrame \<Rightarrow> Packet \<Rightarrow> error option" where
  "sanity_check f packet =
     (if connection_id packet \<noteq> ff_connection_id f then Some ProtocolMismatch
      else if fragments_in_this_frame packet \<noteq> ff_fragments_in_this_frame f
        then Some ProtocolMismatch
      else if frame_no packet \<noteq> ff_frame_no f then Some ProtocolMismatch
      else if fragment_no packet \<ge> ff_fragments_in_this_frame f then Some ProtocolMismatch
      else None)"

text \<open>
  \<open>add_packet\<close> mutates the frame: the model returns the exception thrown, if any,
  together with the frame as the call leaves it. \<open>fragments_[ ... ]\<close> is not checked
  against the size of the vector: an index beyond the end is undefined.
\<close>

definition add_packet :: "FragmentedFrame \<Rightarrow> Packet \<Rightarrow> error option \<times> FragmentedFrame" where
  "add_packet f packet =
     (case sanity_check f packet of
        Some e \<Rightarrow> (Some e, f)
      | None \<Rightarrow>
          let i = unat (fragment_no packet) in
          if \<not> i < length (fragments f) then (Some UndefinedBehaviour, f)
          else if \<not> valid (fragments f ! i)
            then (None, f\<lparr>remaining_fragments := remaining_fragments f - 1,
                           fragments := (fragments f)[i := packet]\<rparr>)
          else (None, f))"

text \<open>The incoming constructor: a constructor that throws leaves no frame.\<close>

definition FragmentedFrame_incoming :: "16 word \<Rightarrow> Packet \<Rightarrow> error + FragmentedFrame" where
  "FragmentedFrame_incoming cid packet =
     (let f0 = \<lparr>ff_connection_id = cid, ff_frame_no = frame_no packet,
                 ff_fragments_in_this_frame = fragments_in_this_frame packet,
                 fragments = replicate (unat (fragments_in_this_frame packet)) Packet_empty,
                 remaining_fragments = ucast (fragments_in_this_frame packet)\<rparr>
      in case sanity_check f0 packet of
           Some e \<Rightarrow> Inl e
         | None \<Rightarrow> (case add_packet f0 packet of
                      (Some e, f1) \<Rightarrow> Inl e
                    | (None, f1) \<Rightarrow> Inr f1))"

definition complete :: "FragmentedFrame \<Rightarrow> bool" where
  "complete f = (remaining_fragments f = 0)"

text \<open>The loop of \<open>frame\<close>: append every payload to \<open>ret\<close>.\<close>

primrec append_payloads :: "Packet list \<Rightarrow> byte list \<Rightarrow> byte list" where
  "append_payloads [] ret = ret"
| "append_payloads (fragment # rest_fragments) ret =
     append_payloads rest_fragments (ret @ payload fragment)"

definition frame :: "FragmentedFrame \<Rightarrow> error + byte list" where
  "frame f =
     (if \<not> complete f then Inl IncompleteFrame
      else Inr (append_payloads (fragments f) []))"

text \<open>The loop of \<open>partial_frame\<close>: it breaks at the first invalid fragment.\<close>

primrec append_valid_payloads :: "Packet list \<Rightarrow> byte list \<Rightarrow> byte list" where
  "append_valid_payloads [] ret = ret"
| "append_valid_payloads (fragment # rest_fragments) ret =
     (if \<not> valid fragment then ret
      else append_valid_payloads rest_fragments (ret @ payload fragment))"

definition partial_frame :: "FragmentedFrame \<Rightarrow> byte list" where
  "partial_frame f = append_valid_payloads (fragments f) []"

subsection \<open>Sending\<close>

text \<open>
  The socket is the list of the datagrams handed to \<open>socket.send\<close> so far. \<open>send\<close> returns
  the exception thrown, if any, and the socket as the call leaves it.
\<close>

primrec send_loop :: "Packet list \<Rightarrow> byte list list \<Rightarrow> error option \<times> byte list list" where
  "send_loop [] socket = (None, socket)"
| "send_loop (packet # packets) socket =
     (case Packet_to_string packet of
        Inl e \<Rightarrow> (Some e, socket)
      | Inr s \<Rightarrow> send_loop packets (socket @ [s]))"

definition send :: "FragmentedFrame \<Rightarrow> byte list list \<Rightarrow> error option \<times> byte list list" where
  "send f socket =
     (if length (fragments f) \<noteq> unat (ff_fragments_in_this_frame f)
      then (Some IncompleteFrame, socket)
      else send_loop (fragments f) socket)"

section \<open>AckPacket\<close>

record AckPacket =
  ack_connection_id :: "16 word"
  ack_frame_no :: "32 word"
  ack_fragment_no :: "16 word"
  ack_avg_delay :: "32 word"

definition AckPacket_incoming :: "byte list \<Rightarrow> error + AckPacket" where
  "AckPacket_incoming str =
     (case read_u16_le str 0 of Inl e \<Rightarrow> Inl e | Inr cid \<Rightarrow>
      case read_u32_le str 2 of Inl e \<Rightarrow> Inl e | Inr fno \<Rightarrow>
      case read_u16_le str 6 of Inl e \<Rightarrow> Inl e | Inr fragno \<Rightarrow>
      case read_u32_le str 8 of Inl e \<Rightarrow> Inl e | Inr delay \<Rightarrow>
        Inr \<lparr>ack_connection_id = cid, ack_frame_no = fno, ack_fragment_no = fragno,
              ack_avg_delay = delay\<rparr>)"

definition AckPacket_to_string :: "AckPacket \<Rightarrow> byte list" where
  "AckPacket_to_string a =
     put_header_field_u16 (ack_connection_id a)
     @ put_header_field_u32 (ack_frame_no a)
     @ put_header_field_u16 (ack_fragment_no a)
     @ put_header_field_u32 (ack_avg_delay a)"

section \<open>Scenarios\<close>

text \<open>
  The receiving side of a round trip: the fragments arrive one by one, the first one founds
  the incoming frame and \<open>add_packet\<close> takes each of the others; an exception ends the
  run.
\<close>

fun add_packets :: "FragmentedFrame \<Rightarrow> Packet list \<Rightarrow> error + FragmentedFrame" where
  "add_packets f [] = Inr f"
| "add_packets f (packet # packets) =
     (case add_packet f packet of
        (Some e, f') \<Rightarrow> Inl e
      | (None, f') \<Rightarrow> add_packets f' packets)"

definition receive_fragments :: "16 word \<Rightarrow> Packet \<Rightarrow> Packet list \<Rightarrow> error + FragmentedFrame" where
  "receive_fragments cid first_packet packets =
     (case FragmentedFrame_incoming cid first_packet of
        Inl e \<Rightarrow> Inl e
      | Inr f \<Rightarrow> add_packets f packets)"

text \<open>
  The frames a program can hold: built by either constructor, then changed by
  \<open>add_packet\<close> only, whether the call throws or not. The fragments handed to the incoming
  constructor and to \<open>add_packet\<close> are packets built by the incoming or by the outgoing
  \<open>Packet\<close> constructor, which both set \<open>valid_\<close>.
\<close>

inductive reachable :: "FragmentedFrame \<Rightarrow> bool" where
  outgoing:
    "FragmentedFrame_outgoing MAXIMUM_PAYLOAD cid fno time_to_next_frame whole_frame = Some (Inr f)
     \<Longrightarrow> reachable f"
| incoming:
    "valid packet \<Longrightarrow> FragmentedFrame_incoming cid packet = Inr f \<Longrightarrow> reachable f"
| add:
    "reachable f \<Longrightarrow> valid packet \<Longrightarrow> add_packet f packet = (r, f') \<Longrightarrow> reachable f'"

section \<open>Notions used in the statements and proofs\<close>

text \<open>The number of slots that are not valid.\<close>

definition invalid_slots :: "FragmentedFrame \<Rightarrow> nat" where
  "invalid_slots f = length (filter (\<lambda>p. \<not> valid p) (fragments f))"

text \<open>
  \<open>fragment_count C B\<close> is \<open>ceil(len(B) / C)\<close>. \<open>fragment_slice\<close> is the packet the outgoing
  \<open>Packet\<close> constructor builds for fragment \<open>i\<close>, and \<open>outgoing_fragment\<close> the same packet
  once the outgoing frame is complete.
\<close>

definition fragment_count :: "nat \<Rightarrow> byte list \<Rightarrow> nat" where
  "fragment_count C B = (length B + C - 1) div C"

definition fragment_slice :: "nat \<Rightarrow> 16 word \<Rightarrow> 32 word \<Rightarrow> byte list \<Rightarrow> nat \<Rightarrow> Packet" where
  "fragment_slice C cid fno w i =
     \<lparr>valid = True, connection_id = cid, frame_no = fno, fragment_no = word_of_nat i,
      fragments_in_this_frame = 0, time_to_next = 0, payload = take C (drop (i * C) w)\<rparr>"

definition outgoing_fragment ::
  "nat \<Rightarrow> 16 word \<Rightarrow> 32 word \<Rightarrow> 32 word \<Rightarrow> byte list \<Rightarrow> nat \<Rightarrow> Packet"
where
  "outgoing_fragment C cid fno ttn w i =
     \<lparr>valid = True, connection_id = cid, frame_no = fno, fragment_no = word_of_nat i,
      fragments_in_this_frame = word_of_nat (fragment_count C w),
      time_to_next = (if Suc i = fragment_count C w then ttn else 0),
      payload = take C (drop (i * C) w)\<rparr>"

text \<open>
  \<open>well_numbered\<close>: the fragments of one frame, each in the slot of its number.
  \<open>accumulating\<close>: an incoming frame that has stored some of them and nothing else.
\<close>

definition well_numbered :: "16 word \<Rightarrow> 32 word \<Rightarrow> Packet list \<Rightarrow> bool" where
  "well_numbered cid fno F \<longleftrightarrow>
     length F < 65536
     \<and> (\<forall>i<length F. valid (F ! i) \<and> connection_id (F ! i) = cid \<and> frame_no (F ! i) = fno
           \<and> fragment_no (F ! i) = word_of_nat i
           \<and> fragments_in_this_frame (F ! i) = word_of_nat (length F))"

definition accumulating :: "16 word \<Rightarrow> 32 word \<Rightarrow> Packet list \<Rightarrow> FragmentedFrame \<Rightarrow> bool" where
  "accumulating cid fno F g \<longleftrightarrow>
     ff_connection_id g = cid \<and> ff_frame_no g = fno
     \<and> ff_fragments_in_this_frame g = word_of_nat (length F)
     \<and> length (fragments g) = length F
     \<and> (\<forall>i<length F. valid (fragments g ! i) \<longrightarrow> fragments g ! i = F ! i)
     \<and> unat (remaining_fragments g) = invalid_slots g"

section \<open>Example values\<close>

text \<open>
  The three fragments of the five-byte frame \<open>[1, 2, 3, 4, 5]\<close> cut with a payload cap of
  two bytes, for connection 7 and frame 9, and the states of an incoming frame that has
  received the last one, then the first one, then all of them.
\<close>

definition ex_packet0 :: Packet where
  "ex_packet0 = \<lparr>valid = True, connection_id = 7, frame_no = 9, fragment_no = 0,
                   fragments_in_this_frame = 3, time_to_next = 0, payload = [1, 2]\<rparr>"

definition ex_packet1 :: Packet where
  "ex_packet1 = \<lparr>valid = True, connection_id = 7, frame_no = 9, fragment_no = 1,
                   fragments_in_this_frame = 3, time_to_next = 0, payload = [3, 4]\<rparr>"

definition ex_packet2 :: Packet where
  "ex_packet2 = \<lparr>valid = True, connection_id = 7, frame_no = 9, fragment_no = 2,
                   fragments_in_this_frame = 3, time_to_next = 5, payload = [5]\<rparr>"

definition ex_frame_2 :: FragmentedFrame where
  "ex_frame_2 = \<lparr>ff_connection_id = 7, ff_frame_no = 9, ff_fragments_in_this_frame = 3,
                   fragments = [Packet_empty, Packet_empty, ex_packet2],
                   remaining_fragments = 2\<rparr>"

definition ex_frame_02 :: FragmentedFrame where
  "ex_frame_02 = \<lparr>ff_connection_id = 7, ff_frame_no = 9, ff_fragments_in_this_frame = 3,
                   fragments = [ex_packet0, Packet_empty, ex_packet2],
                   remaining_fragments = 1\<rparr>"

definition ex_frame_012 :: FragmentedFrame where
  "ex_frame_012 = \<lparr>ff_connection_id = 7, ff_frame_no = 9, ff_fragments_in_this_frame = 3,
                   fragments = [ex_packet0, ex_packet1, ex_packet2],
                   remaining_fragments = 0\<rparr>"

section \<open>Auxiliary facts\<close>

subsection \<open>The loops of \<open>frame\<close> and \<open>partial_frame\<close>\<close>

lemma append_payloads_concat: "append_payloads ps ret = ret @ concat (map payload ps)"
  by (induction ps arbitrary: ret) auto

lemma append_valid_payloads_takeWhile:
  "append_valid_payloads ps ret = ret @ concat (map payload (takeWhile valid ps))"
  by (induction ps arbitrary: ret) auto

lemma takeWhile_prefix:
  "k \<le> length ps \<Longrightarrow> \<forall>i<k. P (ps ! i) \<Longrightarrow> (k < length ps \<longrightarrow> \<not> P (ps ! k)) \<Longrightarrow>
   takeWhile P ps = take k ps"
proof (induction ps arbitrary: k)
  case Nil then show ?case by simp
next
  case (Cons p ps)
  show ?case
  proof (cases k)
    case 0 with Cons.prems show ?thesis by simp
  next
    case (Suc j)
    with Cons.prems have "P p" by auto
    moreover have "takeWhile P ps = take j ps"
      using Cons.prems Suc by (intro Cons.IH) auto
    ultimately show ?thesis using Suc by simp
  qed
qed

subsection \<open>The sanity check\<close>

lemma sanity_check_None_iff:
  "sanity_check f p = None \<longleftrightarrow>
     connection_id p = ff_connection_id f
     \<and> fragments_in_this_frame p = ff_fragments_in_this_frame f
     \<and> frame_no p = ff_frame_no f
     \<and> fragment_no p < ff_fragments_in_this_frame f"
  by (auto simp: sanity_check_def)

lemma sanity_mismatch:
  assumes "connection_id p \<noteq> ff_connection_id f \<or> frame_no p \<noteq> ff_frame_no f
           \<or> fragments_in_this_frame p \<noteq> ff_fragments_in_this_frame f"
  shows "sanity_check f p = Some ProtocolMismatch"
  using assms unfolding sanity_check_def by auto

subsection \<open>Little-endian fields\<close>

lemma u16_roundtrip:
  "ucast (ucast (n :: 16 word) :: byte) OR push_bit 8 (ucast (ucast (drop_bit 8 n) :: byte)) = n"
  by (rule bit_word_eqI) (auto simp: bit_simps)

lemma u32_roundtrip:
  "ucast (ucast (n :: 32 word) :: byte) OR push_bit 8 (ucast (ucast (drop_bit 8 n) :: byte))
   OR push_bit 16 (ucast (ucast (drop_bit 16 n) :: byte))
   OR push_bit 24 (ucast (ucast (drop_bit 24 n) :: byte)) = n"
  apply (rule bit_word_eqI)
  subgoal for k
    by (cases "k < 8"; cases "k < 16"; cases "k < 24") (auto simp: bit_simps)
  done

lemma read_u16_le_put:
  "length pre = off \<Longrightarrow> read_u16_le (pre @ put_header_field_u16 n @ post) off = Inr n"
  by (simp add: read_u16_le_def put_header_field_u16_def nth_append u16_roundtrip)

lemma read_u32_le_put:
  "length pre = off \<Longrightarrow> read_u32_le (pre @ put_header_field_u32 n @ post) off = Inr n"
  by (simp add: read_u32_le_def put_header_field_u32_def nth_append u32_roundtrip)

lemma length_put_u16: "length (put_header_field_u16 n) = 2"
  by (simp add: put_header_field_u16_def)

lemma length_put_u32: "length (put_header_field_u32 n) = 4"
  by (simp add: put_header_field_u32_def)

lemma Packet_to_string_fields:
  assumes "Packet_to_string p = Inr s"
  shows "read_u16_le s 0 = Inr (connection_id p)"
    and "read_u32_le s 2 = Inr (frame_no p)"
    and "read_u16_le s 6 = Inr (fragment_no p)"
    and "read_u16_le s 8 = Inr (fragments_in_this_frame p)"
    and "read_u32_le s 10 = Inr (time_to_next p)"
    and "rest s 14 = Inr (payload p)"
proof -
  let ?a = "put_header_field_u16 (connection_id p)"
  let ?b = "put_header_field_u32 (frame_no p)"
  let ?c = "put_header_field_u16 (fragment_no p)"
  let ?d = "put_header_field_u16 (fragments_in_this_frame p)"
  let ?e = "put_header_field_u32 (time_to_next p)"
  from assms have s: "s = ?a @ ?b @ ?c @ ?d @ ?e @ payload p"
    by (simp add: Packet_to_string_def split: if_splits)
  show "read_u16_le s 0 = Inr (connection_id p)"
    using read_u16_le_put [of "[]" 0 "connection_id p"] by (simp add: s)
  show "read_u32_le s 2 = Inr (frame_no p)"
    using read_u32_le_put [of ?a 2 "frame_no p" "?c @ ?d @ ?e @ payload p"]
    by (simp add: s length_put_u16)
  show "read_u16_le s 6 = Inr (fragment_no p)"
    using read_u16_le_put [of "?a @ ?b" 6 "fragment_no p" "?d @ ?e @ payload p"]
    by (simp add: s length_put_u16 length_put_u32)
  show "read_u16_le s 8 = Inr (fragments_in_this_frame p)"
    using read_u16_le_put [of "?a @ ?b @ ?c" 8 "fragments_in_this_frame p" "?e @ payload p"]
    by (simp add: s length_put_u16 length_put_u32)
  show "read_u32_le s 10 = Inr (time_to_next p)"
    using read_u32_le_put [of "?a @ ?b @ ?c @ ?d" 10 "time_to_next p" "payload p"]
    by (simp add: s length_put_u16 length_put_u32)
  show "rest s 14 = Inr (payload p)"
    by (simp add: s rest_def length_put_u16 length_put_u32)
qed

lemma read_u16_le_Inr: "read_u16_le buf off = Inr w \<Longrightarrow> off + 2 \<le> length buf"
  by (simp add: read_u16_le_def split: if_splits)

lemma read_u32_le_Inr: "read_u32_le buf off = Inr w \<Longrightarrow> off + 4 \<le> length buf"
  by (simp add: read_u32_le_def split: if_splits)

lemma read_u16_le_ex: "off + 2 \<le> length buf \<Longrightarrow> \<exists>w. read_u16_le buf off = Inr w"
  by (simp add: read_u16_le_def)

lemma read_u32_le_ex: "off + 4 \<le> length buf \<Longrightarrow> \<exists>w. read_u32_le buf off = Inr w"
  by (simp add: read_u32_le_def)

lemma Packet_incoming_short:
  assumes "length buf < 14"
  shows "Packet_incoming buf = Inl MalformedPacket"
proof -
  have "read_u32_le buf 10 = Inl MalformedPacket"
    using assms by (simp add: read_u32_le_def)
  then show ?thesis
    by (simp add: Packet_incoming_def split: sum.splits)
       (auto simp: read_u16_le_def read_u32_le_def split: if_splits)
qed

lemma Packet_incoming_long:
  assumes "14 \<le> length buf"
  obtains cid fno fragno nfrags ttn where
    "read_u16_le buf 0 = Inr cid" "read_u32_le buf 2 = Inr fno" "read_u16_le buf 6 = Inr fragno"
    "read_u16_le buf 8 = Inr nfrags" "read_u32_le buf 10 = Inr ttn"
    "Packet_incoming buf =
       (if fragno \<ge> nfrags then Inl MalformedPacket
        else if length buf \<le> 14 then Inl MalformedPacket
        else Inr \<lparr>valid = True, connection_id = cid, frame_no = fno, fragment_no = fragno,
                   fragments_in_this_frame = nfrags, time_to_next = ttn,
                   payload = drop 14 buf\<rparr>)"
proof -
  from assms obtain cid where 1: "read_u16_le buf 0 = Inr cid"
    using read_u16_le_ex [of 0 buf] by auto
  from assms obtain fno where 2: "read_u32_le buf 2 = Inr fno"
    using read_u32_le_ex [of 2 buf] by auto
  from assms obtain fragno where 3: "read_u16_le buf 6 = Inr fragno"
    using read_u16_le_ex [of 6 buf] by auto
  from assms obtain nfrags where 4: "read_u16_le buf 8 = Inr nfrags"
    using read_u16_le_ex [of 8 buf] by auto
  from assms obtain ttn where 5: "read_u32_le buf 10 = Inr ttn"
    using read_u32_le_ex [of 10 buf] by auto
  have 6: "rest buf 14 = Inr (drop 14 buf)"
    using assms by (simp add: rest_def)
  show thesis
    by (rule that [OF 1 2 3 4 5]) (simp add: Packet_incoming_def 1 2 3 4 5 6)
qed

subsection \<open>Valid slots and the counter\<close>

lemma Packet_outgoing_valid:
  "Packet_outgoing C w cid fno k ttn = Inr (p, n) \<Longrightarrow> valid p"
  by (auto simp: Packet_outgoing_def Let_def split: if_splits)

lemma emplace_loop_valid_aux:
  "emplace_loop C w cid fno k nx acc = Some y \<Longrightarrow>
   \<forall>frags. y = Inr frags \<longrightarrow> list_all valid acc \<longrightarrow> list_all valid frags"
proof (rule emplace_loop.raw_induct
    [where P = "\<lambda>C w cid fno k nx acc y.
       \<forall>frags. y = Inr frags \<longrightarrow> list_all valid acc \<longrightarrow> list_all valid frags"],
    goal_cases)
  case (1 loop C w cid fno k nx acc y)
  note IH = "1"(2) and eq = "1"(3)
  show ?case
  proof (cases "nx < length w")
    case False
    with eq show ?thesis by auto
  next
    case True
    show ?thesis
    proof (cases "Packet_outgoing C w cid fno k 0")
      case (Inl e)
      with True eq show ?thesis by auto
    next
      case (Inr pn)
      obtain p n where pn: "pn = (p, n)" by (cases pn)
      with Inr have v: "valid p" by (auto dest: Packet_outgoing_valid)
      from True Inr pn eq
      have "loop C w cid fno (k + 1) n (acc @ [p]) = Some y" by simp
      from IH [OF this] v show ?thesis by simp
    qed
  qed
qed

lemma emplace_loop_valid:
  "emplace_loop C w cid fno k nx acc = Some (Inr frags) \<Longrightarrow> list_all valid acc \<Longrightarrow>
   list_all valid frags"
  using emplace_loop_valid_aux by blast

lemma set_all_fragments_in_this_frame_valid:
  "set_all_fragments_in_this_frame ps x = Inr ps' \<Longrightarrow> list_all valid ps \<Longrightarrow> list_all valid ps'"
proof (induction ps arbitrary: ps')
  case Nil
  then show ?case by simp
next
  case (Cons p ps)
  then show ?case
    by (auto simp: set_fragments_in_this_frame_def Let_def split: sum.splits if_splits)
qed

lemma outgoing_all_valid:
  assumes "FragmentedFrame_outgoing C cid fno ttn w = Some (Inr f)"
  shows "list_all valid (fragments f) \<and> remaining_fragments f = 0"
proof -
  from assms obtain frags where
    loop: "emplace_loop C w cid fno 0 0 [] = Some (Inr frags)" and ne: "frags \<noteq> []"
    by (auto simp: FragmentedFrame_outgoing_def split: option.splits sum.splits if_splits)
  have v: "list_all valid frags"
    using emplace_loop_valid [OF loop] by simp
  let ?frags1 = "butlast frags @ [set_time_to_next (last frags) ttn]"
  have "list_all valid (butlast frags)"
    using v by (auto simp: list_all_iff dest: in_set_butlastD)
  moreover have "valid (last frags)"
    using v ne by (simp add: list_all_iff)
  ultimately have v1: "list_all valid ?frags1"
    by (simp add: set_time_to_next_def)
  from assms loop ne obtain frags2 where
    s: "set_all_fragments_in_this_frame ?frags1 (word_of_nat (length ?frags1)) = Inr frags2"
    and f: "f = \<lparr>ff_connection_id = cid, ff_frame_no = fno,
                 ff_fragments_in_this_frame = word_of_nat (length ?frags1),
                 fragments = frags2, remaining_fragments = 0\<rparr>"
    by (auto simp: FragmentedFrame_outgoing_def Let_def split: sum.splits)
  from set_all_fragments_in_this_frame_valid [OF s v1] f show ?thesis by simp
qed

lemma filter_invalid_update:
  "i < length xs \<Longrightarrow> \<not> valid (xs ! i) \<Longrightarrow> valid p \<Longrightarrow>
   Suc (length (filter (\<lambda>q. \<not> valid q) (xs[i := p]))) = length (filter (\<lambda>q. \<not> valid q) xs)"
proof (induction xs arbitrary: i)
  case Nil
  then show ?case by simp
next
  case (Cons x xs)
  then show ?case by (cases i) auto
qed

lemma unat_ucast_16_32: "unat (ucast (n :: 16 word) :: 32 word) = unat n"
proof -
  have "unat n < 2 ^ 16" using unsigned_less [of n] by simp
  then have "unat n < 2 ^ 32" by simp
  then show ?thesis by (simp add: unsigned_ucast_eq take_bit_nat_eq_self)
qed

lemma add_packet_cases:
  "snd (add_packet f p) = f
   \<or> (fst (add_packet f p) = None
      \<and> unat (fragment_no p) < length (fragments f)
      \<and> \<not> valid (fragments f ! unat (fragment_no p))
      \<and> snd (add_packet f p) = f\<lparr>remaining_fragments := remaining_fragments f - 1,
           fragments := (fragments f)[unat (fragment_no p) := p]\<rparr>)"
proof (cases "sanity_check f p")
  case (Some e)
  then show ?thesis by (simp add: add_packet_def)
next
  case None
  show ?thesis
  proof (cases "unat (fragment_no p) < length (fragments f)")
    case False
    with None show ?thesis by (simp add: add_packet_def)
  next
    case True
    with None show ?thesis
      by (cases "valid (fragments f ! unat (fragment_no p))") (simp_all add: add_packet_def)
  qed
qed

lemma add_packet_invariant:
  assumes inv: "unat (remaining_fragments f) = invalid_slots f"
      and v: "valid p"
  shows "unat (remaining_fragments (snd (add_packet f p))) = invalid_slots (snd (add_packet f p))"
proof -
  from add_packet_cases [of f p] show ?thesis
  proof (elim disjE conjE)
    assume "snd (add_packet f p) = f"
    with inv show ?thesis by simp
  next
    assume stored: "fst (add_packet f p) = None"
      "unat (fragment_no p) < length (fragments f)"
      "\<not> valid (fragments f ! unat (fragment_no p))"
      "snd (add_packet f p) = f\<lparr>remaining_fragments := remaining_fragments f - 1,
           fragments := (fragments f)[unat (fragment_no p) := p]\<rparr>"
  from filter_invalid_update [OF stored(2) stored(3) v]
  have c: "Suc (invalid_slots (snd (add_packet f p))) = invalid_slots f"
    by (simp add: invalid_slots_def stored(4))
  with inv have "remaining_fragments f \<noteq> 0" by (auto simp: unat_eq_0)
  then have "unat (remaining_fragments f - 1) = unat (remaining_fragments f) - 1"
    by (simp add: unat_minus_one)
  with c inv show ?thesis by (simp add: stored(4))
qed
qed

lemma incoming_invariant:
  assumes "valid p" and "FragmentedFrame_incoming cid p = Inr f"
  shows "unat (remaining_fragments f) = invalid_slots f"
proof -
  let ?n = "fragments_in_this_frame p"
  let ?f0 = "\<lparr>ff_connection_id = cid, ff_frame_no = frame_no p,
               ff_fragments_in_this_frame = ?n,
               fragments = replicate (unat ?n) Packet_empty,
               remaining_fragments = ucast ?n\<rparr>"
  have "filter (\<lambda>q. \<not> valid q) (replicate (unat ?n) Packet_empty) = replicate (unat ?n) Packet_empty"
    by (simp add: Packet_empty_def)
  then have inv0: "unat (remaining_fragments ?f0) = invalid_slots ?f0"
    by (simp add: invalid_slots_def unat_ucast_16_32)
  from assms(2) have "f = snd (add_packet ?f0 p)"
    by (auto simp: FragmentedFrame_incoming_def Let_def split: option.splits prod.splits)
  with add_packet_invariant [OF inv0 assms(1)] show ?thesis by simp
qed

subsection \<open>The example frames\<close>

lemma ex_incoming: "FragmentedFrame_incoming 7 ex_packet2 = Inr ex_frame_2"
  by code_simp

lemma ex_add: "add_packet ex_frame_2 ex_packet0 = (None, ex_frame_02)"
  by (simp add: add_packet_def sanity_check_def ex_frame_2_def ex_frame_02_def ex_packet0_def
      Packet_empty_def)

subsection \<open>The loop of \<open>send\<close>\<close>

lemma send_loop_not_incomplete: "fst (send_loop ps socket) \<noteq> Some IncompleteFrame"
  by (induction ps arbitrary: socket) (auto simp: Packet_to_string_def)

subsection \<open>The splitting loop\<close>

lemma fragment_count_le_iff:
  assumes "1 \<le> C"
  shows "fragment_count C B \<le> j \<longleftrightarrow> length B \<le> j * C"
proof -
  have "fragment_count C B < Suc j \<longleftrightarrow> length B + C - 1 < Suc j * C"
    unfolding fragment_count_def using assms by (intro div_less_iff_less_mult) simp
  also have "\<dots> \<longleftrightarrow> length B \<le> j * C"
    using assms by auto
  finally show ?thesis by (simp add: less_Suc_eq_le)
qed

lemma less_fragment_count_iff:
  assumes "1 \<le> C"
  shows "i < fragment_count C B \<longleftrightarrow> i * C < length B"
  using fragment_count_le_iff [OF assms, of B i] by auto

lemma unat_of_nat_16: "i < 65536 \<Longrightarrow> unat (word_of_nat i :: 16 word) = i"
  by (simp add: unat_of_nat)

lemma Packet_outgoing_slice:
  assumes "i * C < length w" and "i < 65536"
  shows "Packet_outgoing C w cid fno (word_of_nat i) 0
         = Inr (fragment_slice C cid fno w i, min (length w) (Suc i * C))"
proof -
  from assms(1) have ne: "w \<noteq> []" by auto
  have u: "C * unat (word_of_nat i :: 16 word) = i * C"
    using assms(2) by (simp add: unat_of_nat_16)
  have m: "i * C + min (length w - i * C) C = min (length w) (Suc i * C)"
    using assms(1) by auto
  have t: "take (min (length w - i * C) C) (drop (i * C) w) = take C (drop (i * C) w)"
    by (simp add: min_def)
  show ?thesis
    unfolding Packet_outgoing_def Let_def u
    using ne assms(1) m t by (simp add: fragment_slice_def)
qed

lemma emplace_loop_from:
  assumes "1 \<le> C" and "fragment_count C w \<le> 65536"
  shows "i * C < length w \<Longrightarrow>
         emplace_loop C w cid fno (word_of_nat i) (i * C) acc
         = Some (Inr (acc @ map (fragment_slice C cid fno w) [i..<fragment_count C w]))"
proof (induction "fragment_count C w - i" arbitrary: i acc)
  case 0
  with less_fragment_count_iff [OF assms(1), of i w] show ?case by simp
next
  case (Suc d)
  let ?k = "fragment_count C w"
  from Suc.prems have ik: "i < ?k" by (simp add: less_fragment_count_iff [OF assms(1)])
  with assms(2) have i16: "i < 65536" by simp
  have step: "emplace_loop C w cid fno (word_of_nat i) (i * C) acc
      = emplace_loop C w cid fno (word_of_nat (Suc i)) (min (length w) (Suc i * C))
          (acc @ [fragment_slice C cid fno w i])"
    using Suc.prems
    by (subst emplace_loop.simps) (simp add: Packet_outgoing_slice [OF Suc.prems i16] add.commute)
  have upt: "[i..<?k] = i # [Suc i..<?k]"
    using ik by (simp add: upt_conv_Cons)
  show ?case
  proof (cases "Suc i * C < length w")
    case True
    then have "min (length w) (Suc i * C) = Suc i * C" by simp
    moreover from Suc.hyps(2) have "d = ?k - Suc i" by simp
    ultimately show ?thesis
      using Suc.hyps(1) [of "Suc i" "acc @ [fragment_slice C cid fno w i]"] True step upt by simp
  next
    case False
    then have m: "min (length w) (Suc i * C) = length w" by simp
    from False have "?k \<le> Suc i" by (simp add: fragment_count_le_iff [OF assms(1)])
    with ik have k: "?k = Suc i" by simp
    have "emplace_loop C w cid fno (word_of_nat (Suc i)) (length w) (acc @ [fragment_slice C cid fno w i])
        = Some (Inr (acc @ [fragment_slice C cid fno w i]))"
      by (subst emplace_loop.simps) simp
    with step m k show ?thesis by simp
  qed
qed

lemma emplace_loop_result:
  assumes "1 \<le> C" and "w \<noteq> []" and "fragment_count C w \<le> 65536"
  shows "emplace_loop C w cid fno 0 0 []
         = Some (Inr (map (fragment_slice C cid fno w) [0..<fragment_count C w]))"
  using emplace_loop_from [OF assms(1) assms(3), of 0 cid fno "[]"] assms(2) by simp

lemma word_of_nat_16_less:
  "i < k \<Longrightarrow> k < 65536 \<Longrightarrow> (word_of_nat i :: 16 word) < word_of_nat k"
  by (simp add: word_of_nat_less_iff take_bit_nat_eq_self)

lemma set_all_fragments_in_this_frame_map:
  "\<forall>p\<in>set ps. fragment_no p < x \<Longrightarrow>
   set_all_fragments_in_this_frame ps x = Inr (map (\<lambda>p. p\<lparr>fragments_in_this_frame := x\<rparr>) ps)"
  by (induction ps) (simp_all add: set_fragments_in_this_frame_def)

lemma set_all_fragments_in_this_frame_zero:
  "ps \<noteq> [] \<Longrightarrow> set_all_fragments_in_this_frame ps 0 = Inl AssertionFailed"
  by (cases ps) (simp_all add: set_fragments_in_this_frame_def)

lemma last_fragment_time:
  assumes "0 < k"
  shows "butlast (map f [0..<k]) @ [g (last (map f [0..<k]))]
         = map (\<lambda>i. if Suc i = k then g (f i) else f i) [0..<k]"
proof -
  from assms obtain m where k: "k = Suc m" by (cases k) auto
  have "map (\<lambda>i. if Suc i = Suc m then g (f i) else f i) [0..<m] = map f [0..<m]"
    by (rule map_cong) auto
  then show ?thesis by (simp add: k)
qed

lemma outgoing_result:
  assumes "1 \<le> C" and "w \<noteq> []" and "fragment_count C w \<le> 65535"
  shows "FragmentedFrame_outgoing C cid fno ttn w
         = Some (Inr \<lparr>ff_connection_id = cid, ff_frame_no = fno,
              ff_fragments_in_this_frame = word_of_nat (fragment_count C w),
              fragments = map (outgoing_fragment C cid fno ttn w) [0..<fragment_count C w],
              remaining_fragments = 0\<rparr>)"
proof -
  let ?k = "fragment_count C w"
  let ?frags = "map (fragment_slice C cid fno w) [0..<?k]"
  let ?f1 = "\<lambda>i. if Suc i = ?k then set_time_to_next (fragment_slice C cid fno w i) ttn
                 else fragment_slice C cid fno w i"
  from assms(2) have "0 * C < length w" by simp
  then have k0: "0 < ?k" by (simp only: less_fragment_count_iff [OF assms(1)])
  from assms(3) have "?k \<le> 65536" by simp
  from emplace_loop_result [OF assms(1) assms(2) this]
  have loop: "emplace_loop C w cid fno 0 0 [] = Some (Inr ?frags)" .
  have ne: "?frags \<noteq> []" using k0 by simp
  have frags1: "butlast ?frags @ [set_time_to_next (last ?frags) ttn] = map ?f1 [0..<?k]"
    using last_fragment_time [OF k0, of "fragment_slice C cid fno w" "\<lambda>p. set_time_to_next p ttn"]
    by simp
  have len: "length (map ?f1 [0..<?k]) = ?k" by simp
  have "\<forall>p\<in>set (map ?f1 [0..<?k]). fragment_no p < word_of_nat ?k"
    using assms(3)
    by (auto simp: fragment_slice_def set_time_to_next_def intro!: word_of_nat_16_less)
  from set_all_fragments_in_this_frame_map [OF this]
  have setall: "set_all_fragments_in_this_frame (map ?f1 [0..<?k]) (word_of_nat ?k)
      = Inr (map (\<lambda>p. p\<lparr>fragments_in_this_frame := word_of_nat ?k\<rparr>) (map ?f1 [0..<?k]))" .
  have final: "map (\<lambda>p. p\<lparr>fragments_in_this_frame := word_of_nat ?k\<rparr>) (map ?f1 [0..<?k])
      = map (outgoing_fragment C cid fno ttn w) [0..<?k]"
    by (simp add: outgoing_fragment_def fragment_slice_def set_time_to_next_def)
  show ?thesis
    unfolding FragmentedFrame_outgoing_def loop
    using ne by (simp only: Let_def frags1 len setall final option.case sum.case if_False)
qed

lemma outgoing_overflow:
  assumes "1 \<le> C" and "fragment_count C w = 65536"
  shows "FragmentedFrame_outgoing C cid fno ttn w = Some (Inl AssertionFailed)"
proof -
  let ?k = "fragment_count C w"
  let ?frags = "map (fragment_slice C cid fno w) [0..<?k]"
  from assms(2) have "0 < ?k" by simp
  then have "0 * C < length w" by (simp only: less_fragment_count_iff [OF assms(1)])
  then have w: "w \<noteq> []" by auto
  from assms(2) have "?k \<le> 65536" by simp
  from emplace_loop_result [OF assms(1) w this]
  have loop: "emplace_loop C w cid fno 0 0 [] = Some (Inr ?frags)" .
  have ne: "?frags \<noteq> []" using assms(2) by simp
  have len: "length (butlast ?frags @ [set_time_to_next (last ?frags) ttn]) = 65536"
    using assms(2) by simp
  have z: "(word_of_nat 65536 :: 16 word) = 0" by simp
  have "set_all_fragments_in_this_frame (butlast ?frags @ [set_time_to_next (last ?frags) ttn]) 0
      = Inl AssertionFailed"
    by (rule set_all_fragments_in_this_frame_zero) simp
  then show ?thesis
    unfolding FragmentedFrame_outgoing_def loop
    using ne by (simp only: Let_def len z option.case sum.case if_False)
qed

lemma emplace_loop_diverges_aux:
  "emplace_loop C w cid fno k nx acc = Some y \<Longrightarrow>
   \<not> (65536 * C < length w \<and> nx < length w)"
proof (rule emplace_loop.raw_induct
    [where P = "\<lambda>C w cid fno k nx acc y. \<not> (65536 * C < length w \<and> nx < length w)"],
    goal_cases)
  case (1 loop C w cid fno k nx acc y)
  note IH = "1"(2) and eq = "1"(3)
  show ?case
  proof
    assume a: "65536 * C < length w \<and> nx < length w"
    have "unat k < 2 ^ 16" using unsigned_less [of k] by simp
    then have "unat k + 1 \<le> 65536" by simp
    then have "C * (unat k + 1) \<le> C * 65536" by (rule mult_le_mono2)
    then have "C * unat k + C \<le> 65536 * C" by (simp only: distrib_left mult_1_right mult.commute)
    with a have b: "C * unat k + C < length w" by linarith
    then have ne: "w \<noteq> []" by auto
    from b have m: "min (length w - C * unat k) C = C" by simp
    let ?p = "\<lparr>valid = True, connection_id = cid, frame_no = fno, fragment_no = k,
                fragments_in_this_frame = 0, time_to_next = 0,
                payload = take C (drop (C * unat k) w)\<rparr>"
    have "Packet_outgoing C w cid fno k 0 = Inr (?p, C * unat k + C)"
      unfolding Packet_outgoing_def Let_def m using ne b by simp
    with a eq have "loop C w cid fno (k + 1) (C * unat k + C) (acc @ [?p]) = Some y"
      by simp
    from IH [OF this] a b show False by simp
  qed
qed

lemma emplace_loop_diverges:
  assumes "65536 * C < length w" and "nx < length w"
  shows "emplace_loop C w cid fno k nx acc = None"
proof (cases "emplace_loop C w cid fno k nx acc")
  case None
  then show ?thesis .
next
  case (Some y)
  from emplace_loop_diverges_aux [OF this] assms show ?thesis by simp
qed

lemma outgoing_diverges:
  assumes "65536 * C < length w"
  shows "FragmentedFrame_outgoing C cid fno ttn w = None"
proof -
  from assms have "0 < length w" by (cases w) simp_all
  from emplace_loop_diverges [OF assms this]
  show ?thesis by (simp add: FragmentedFrame_outgoing_def)
qed

lemma outgoing_well_numbered:
  assumes "fragment_count C w \<le> 65535"
  shows "well_numbered cid fno (map (outgoing_fragment C cid fno ttn w) [0..<fragment_count C w])"
  using assms by (simp add: well_numbered_def outgoing_fragment_def)

lemma concat_slices:
  "concat (map (\<lambda>i. take C (drop (i * C) w)) [0..<k]) = take (k * C) w"
proof (induction k)
  case 0
  then show ?case by simp
next
  case (Suc k)
  have "take (k * C) w @ take C (drop (k * C) w) = take (k * C + C) w"
    by (simp add: take_add)
  with Suc show ?case by (simp add: add.commute)
qed

lemma outgoing_payloads:
  assumes "1 \<le> C"
  shows "concat (map payload (map (outgoing_fragment C cid fno ttn w) [0..<fragment_count C w])) = w"
proof -
  let ?k = "fragment_count C w"
  have "map payload (map (outgoing_fragment C cid fno ttn w) [0..<?k])
      = map (\<lambda>i. take C (drop (i * C) w)) [0..<?k]"
    by (simp add: outgoing_fragment_def)
  then have "concat (map payload (map (outgoing_fragment C cid fno ttn w) [0..<?k]))
      = concat (map (\<lambda>i. take C (drop (i * C) w)) [0..<?k])"
    by (simp only:)
  also have "\<dots> = take (?k * C) w" by (rule concat_slices)
  also have "\<dots> = w"
    using fragment_count_le_iff [OF assms, of w ?k] by simp
  finally show ?thesis .
qed

subsection \<open>Reassembly in any order\<close>

lemma well_numbered_sanity:
  assumes "well_numbered cid fno F" and "j < length F"
    and "ff_connection_id g = cid" and "ff_frame_no g = fno"
    and "ff_fragments_in_this_frame g = word_of_nat (length F)"
  shows "sanity_check g (F ! j) = None" and "unat (fragment_no (F ! j)) = j"
proof -
  from assms(1,2) have l: "length F < 65536" and j: "j < 65536"
    and p: "valid (F ! j)" "connection_id (F ! j) = cid" "frame_no (F ! j) = fno"
      "fragment_no (F ! j) = word_of_nat j"
      "fragments_in_this_frame (F ! j) = word_of_nat (length F)"
    by (auto simp: well_numbered_def)
  have "(word_of_nat j :: 16 word) < word_of_nat (length F)"
    using assms(2) l by (rule word_of_nat_16_less)
  with p assms(3-5) show "sanity_check g (F ! j) = None"
    by (simp add: sanity_check_None_iff)
  from p(4) j show "unat (fragment_no (F ! j)) = j"
    by (simp add: unat_of_nat_16)
qed

lemma accumulating_add_packet:
  assumes wn: "well_numbered cid fno F" and acc: "accumulating cid fno F g" and j: "j < length F"
  shows "\<exists>h. add_packet g (F ! j) = (None, h) \<and> accumulating cid fno F h
             \<and> valid (fragments h ! j)
             \<and> (\<forall>i<length F. valid (fragments g ! i) \<longrightarrow> valid (fragments h ! i))"
proof -
  let ?p = "F ! j"
  from acc have g: "ff_connection_id g = cid" "ff_frame_no g = fno"
    "ff_fragments_in_this_frame g = word_of_nat (length F)"
    "length (fragments g) = length F"
    "\<forall>i<length F. valid (fragments g ! i) \<longrightarrow> fragments g ! i = F ! i"
    "unat (remaining_fragments g) = invalid_slots g"
    by (simp_all add: accumulating_def)
  from well_numbered_sanity [OF wn j g(1-3)]
  have sc: "sanity_check g ?p = None" and u: "unat (fragment_no ?p) = j" .
  from wn j have v: "valid ?p" by (simp add: well_numbered_def)
  show ?thesis
  proof (cases "valid (fragments g ! j)")
    case True
    with sc u j g(4) have "add_packet g ?p = (None, g)" by (simp add: add_packet_def)
    with acc True show ?thesis by simp
  next
    case False
    let ?h = "g\<lparr>remaining_fragments := remaining_fragments g - 1,
                 fragments := (fragments g)[j := ?p]\<rparr>"
    from False sc u j g(4) have a: "add_packet g ?p = (None, ?h)"
      by (simp add: add_packet_def)
    from add_packet_invariant [OF g(6) v] a
    have inv: "unat (remaining_fragments ?h) = invalid_slots ?h" by simp
    have "accumulating cid fno F ?h"
      unfolding accumulating_def
    proof (intro conjI allI impI)
      fix i assume "i < length F" and "valid (fragments ?h ! i)"
      with g(4,5) j show "fragments ?h ! i = F ! i"
        by (cases "i = j") simp_all
    qed (use g inv in simp_all)
    moreover have "valid (fragments ?h ! j)" using j g(4) v by simp
    moreover have "\<forall>i<length F. valid (fragments g ! i) \<longrightarrow> valid (fragments ?h ! i)"
    proof (intro allI impI)
      fix i assume "i < length F" and vi: "valid (fragments g ! i)"
      with False have "i \<noteq> j" by auto
      with vi show "valid (fragments ?h ! i)" by simp
    qed
    ultimately show ?thesis using a by blast
  qed
qed

lemma accumulating_add_packets:
  assumes wn: "well_numbered cid fno F"
  shows "accumulating cid fno F g \<Longrightarrow> set ps \<subseteq> set F \<Longrightarrow>
         \<exists>h. add_packets g ps = Inr h \<and> accumulating cid fno F h
             \<and> (\<forall>i<length F. valid (fragments g ! i) \<longrightarrow> valid (fragments h ! i))
             \<and> (\<forall>i<length F. F ! i \<in> set ps \<longrightarrow> valid (fragments h ! i))"
proof (induction ps arbitrary: g)
  case Nil
  then show ?case by simp
next
  case (Cons p ps)
  from Cons.prems(2) obtain j where j: "j < length F" and p: "p = F ! j"
    by (auto simp: in_set_conv_nth)
  from accumulating_add_packet [OF wn Cons.prems(1) j] obtain h where
    h: "add_packet g (F ! j) = (None, h)" "accumulating cid fno F h"
       "valid (fragments h ! j)"
       "\<forall>i<length F. valid (fragments g ! i) \<longrightarrow> valid (fragments h ! i)"
    by blast
  from Cons.prems(2) have "set ps \<subseteq> set F" by simp
  from Cons.IH [OF h(2) this] obtain h' where
    h': "add_packets h ps = Inr h'" "accumulating cid fno F h'"
        "\<forall>i<length F. valid (fragments h ! i) \<longrightarrow> valid (fragments h' ! i)"
        "\<forall>i<length F. F ! i \<in> set ps \<longrightarrow> valid (fragments h' ! i)"
    by blast
  have "add_packets g (p # ps) = Inr h'" using h(1) h'(1) p by simp
  moreover have "\<forall>i<length F. valid (fragments g ! i) \<longrightarrow> valid (fragments h' ! i)"
    using h(4) h'(3) by blast
  moreover have "\<forall>i<length F. F ! i \<in> set (p # ps) \<longrightarrow> valid (fragments h' ! i)"
  proof (intro allI impI)
    fix i assume i: "i < length F" and "F ! i \<in> set (p # ps)"
    then consider "F ! i = F ! j" | "F ! i \<in> set ps" using p by auto
    then show "valid (fragments h' ! i)"
    proof cases
      case 1
      from wn i j have "fragment_no (F ! i) = word_of_nat i" "fragment_no (F ! j) = word_of_nat j"
        "i < 65536" "j < 65536"
        by (auto simp: well_numbered_def)
      with 1 have "i = j" by (metis unat_of_nat_16)
      with h(3) h'(3) j show ?thesis by simp
    next
      case 2
      with h'(4) i show ?thesis by simp
    qed
  qed
  ultimately show ?case using h'(2) by blast
qed

lemma accumulating_incoming:
  assumes wn: "well_numbered cid fno F" and j: "j < length F"
  shows "\<exists>g. FragmentedFrame_incoming cid (F ! j) = Inr g \<and> accumulating cid fno F g
             \<and> valid (fragments g ! j)"
proof -
  let ?p = "F ! j"
  let ?n = "word_of_nat (length F) :: 16 word"
  let ?f0 = "\<lparr>ff_connection_id = cid, ff_frame_no = fno,
               ff_fragments_in_this_frame = ?n,
               fragments = replicate (length F) Packet_empty,
               remaining_fragments = ucast ?n\<rparr>"
  from wn j have p: "valid ?p" "frame_no ?p = fno" "fragments_in_this_frame ?p = ?n"
    and l: "length F < 65536"
    by (auto simp: well_numbered_def)
  have un: "unat ?n = length F" using l by (simp add: unat_of_nat_16)
  have "filter (\<lambda>q. \<not> valid q) (replicate (length F) Packet_empty)
      = replicate (length F) Packet_empty"
    by (simp add: Packet_empty_def)
  then have inv0: "unat (remaining_fragments ?f0) = invalid_slots ?f0"
    by (simp add: invalid_slots_def unat_ucast_16_32 un)
  have acc0: "accumulating cid fno F ?f0"
    unfolding accumulating_def using inv0 by (simp add: Packet_empty_def)
  from well_numbered_sanity [OF wn j, of ?f0] have sc: "sanity_check ?f0 ?p = None" by simp
  from accumulating_add_packet [OF wn acc0 j] obtain g where
    g: "add_packet ?f0 ?p = (None, g)" "accumulating cid fno F g" "valid (fragments g ! j)"
    by blast
  have "FragmentedFrame_incoming cid ?p = Inr g"
    unfolding FragmentedFrame_incoming_def Let_def p(2,3) un
    by (simp add: sc g(1))
  with g show ?thesis by blast
qed

lemma accumulating_complete:
  assumes "accumulating cid fno F g" and "\<forall>i<length F. valid (fragments g ! i)"
  shows "fragments g = F" and "complete g"
proof -
  from assms have l: "length (fragments g) = length F"
    and e: "\<forall>i<length F. fragments g ! i = F ! i"
    and r: "unat (remaining_fragments g) = invalid_slots g"
    by (simp_all add: accumulating_def)
  from l e show "fragments g = F" by (simp add: nth_equalityI)
  from assms(2) l have "filter (\<lambda>q. \<not> valid q) (fragments g) = []"
    by (auto simp: filter_empty_conv in_set_conv_nth)
  with r show "complete g" by (simp add: complete_def invalid_slots_def unat_eq_0)
qed

lemma receive_any_order:
  assumes wn: "well_numbered cid fno F" and perm: "mset (q # qs) = mset F"
  shows "\<exists>h. receive_fragments cid q qs = Inr h \<and> complete h \<and> fragments h = F"
proof -
  from perm have s: "set (q # qs) = set F" by (metis set_mset_mset)
  then obtain j where j: "j < length F" and q: "q = F ! j"
    by (metis in_set_conv_nth list.set_intros(1))
  from accumulating_incoming [OF wn j] obtain g where
    g: "FragmentedFrame_incoming cid (F ! j) = Inr g" "accumulating cid fno F g"
       "valid (fragments g ! j)"
    by blast
  from s have "set qs \<subseteq> set F" by auto
  from accumulating_add_packets [OF wn g(2) this] obtain h where
    h: "add_packets g qs = Inr h" "accumulating cid fno F h"
       "\<forall>i<length F. valid (fragments g ! i) \<longrightarrow> valid (fragments h ! i)"
       "\<forall>i<length F. F ! i \<in> set qs \<longrightarrow> valid (fragments h ! i)"
    by blast
  have all: "\<forall>i<length F. valid (fragments h ! i)"
  proof (intro allI impI)
    fix i assume i: "i < length F"
    then have "F ! i \<in> set (q # qs)" using s by simp
    then consider "F ! i = F ! j" | "F ! i \<in> set qs" using q by auto
    then show "valid (fragments h ! i)"
    proof cases
      case 1
      from wn i j have "fragment_no (F ! i) = word_of_nat i" "fragment_no (F ! j) = word_of_nat j"
        "i < 65536" "j < 65536"
        by (auto simp: well_numbered_def)
      with 1 have "i = j" by (metis unat_of_nat_16)
      with g(3) h(3) j show ?thesis by simp
    next
      case 2
      with h(4) i show ?thesis by simp
    qed
  qed
  from accumulating_complete [OF h(2) all] have "fragments h = F" "complete h" .
  moreover have "receive_fragments cid q qs = Inr h"
    using g(1) h(1) q by (simp add: receive_fragments_def)
  ultimately show ?thesis by blast
qed

subsection \<open>The guard of \<open>send\<close>\<close>

text \<open>
  Every frame a constructor builds has as many slots as \<open>fragments_in_this_frame_\<close> says,
  and \<open>add_packet\<close> changes neither: on a reachable frame the guard of \<open>send\<close> never
  fires.
\<close>

lemma frame_incomplete_iff: "frame f = Inl IncompleteFrame \<longleftrightarrow> \<not> complete f"
  by (simp add: frame_def)

lemma Packet_outgoing_fragment_no:
  "Packet_outgoing C w cid fno k ttn = Inr (p, n) \<Longrightarrow> fragment_no p = k"
  by (auto simp: Packet_outgoing_def Let_def split: if_splits)

lemma emplace_loop_numbers_aux:
  "emplace_loop C w cid fno k nx acc = Some y \<Longrightarrow>
   \<forall>frags. y = Inr frags \<longrightarrow>
     (\<exists>m. map fragment_no frags
          = map fragment_no acc @ map (\<lambda>i. k + word_of_nat i) [0..<m])"
proof (rule emplace_loop.raw_induct
    [where P = "\<lambda>C w cid fno k nx acc y. \<forall>frags. y = Inr frags \<longrightarrow>
       (\<exists>m. map fragment_no frags
            = map fragment_no acc @ map (\<lambda>i. k + word_of_nat i) [0..<m])"],
    goal_cases)
  case (1 loop C w cid fno k nx acc y)
  note IH = "1"(2) and eq = "1"(3)
  show ?case
  proof (intro allI impI)
    fix frags assume y: "y = Inr frags"
    show "\<exists>m. map fragment_no frags
          = map fragment_no acc @ map (\<lambda>i. k + word_of_nat i) [0..<m]"
    proof (cases "nx < length w")
      case False
      with eq y have "frags = acc" by simp
      then have "map fragment_no frags
          = map fragment_no acc @ map (\<lambda>i. k + word_of_nat i) [0..<0]" by simp
      then show ?thesis by blast
    next
      case True
      show ?thesis
      proof (cases "Packet_outgoing C w cid fno k 0")
        case (Inl e)
        with True eq y show ?thesis by simp
      next
        case (Inr pn)
        obtain p n where pn: "pn = (p, n)" by (cases pn)
        with Inr have k: "fragment_no p = k" by (auto dest: Packet_outgoing_fragment_no)
        from True Inr pn eq
        have "loop C w cid fno (k + 1) n (acc @ [p]) = Some y" by simp
        from IH [OF this] y obtain m where
          m: "map fragment_no frags
              = map fragment_no (acc @ [p]) @ map (\<lambda>i. k + 1 + word_of_nat i) [0..<m]"
          by blast
        have "map (\<lambda>i. k + word_of_nat i) [0..<Suc m]
            = k # map (\<lambda>i. k + 1 + word_of_nat i) [0..<m]"
          by (simp add: map_upt_Suc add.assoc del: upt_Suc)
        with m k have "map fragment_no frags
            = map fragment_no acc @ map (\<lambda>i. k + word_of_nat i) [0..<Suc m]"
          by simp
        then show ?thesis by blast
      qed
    qed
  qed
qed

lemma emplace_loop_numbers:
  assumes "emplace_loop C w cid fno 0 0 [] = Some (Inr frags)"
  shows "map fragment_no frags = map word_of_nat [0..<length frags]"
proof -
  from emplace_loop_numbers_aux [OF assms] obtain m where
    m: "map fragment_no frags = map (\<lambda>i. 0 + word_of_nat i) [0..<m]"
    by auto
  then have "length frags = m" by (metis length_map length_upt diff_zero)
  with m show ?thesis by simp
qed

lemma set_all_fragments_in_this_frame_Inr:
  "set_all_fragments_in_this_frame ps x = Inr ps' \<Longrightarrow>
   length ps' = length ps \<and> (\<forall>p\<in>set ps. fragment_no p < x)"
proof (induction ps arbitrary: ps')
  case Nil
  then show ?case by simp
next
  case (Cons p ps)
  then show ?case
    by (auto simp: set_fragments_in_this_frame_def Let_def split: sum.splits if_splits)
qed

lemma outgoing_slot_count:
  assumes "FragmentedFrame_outgoing C cid fno ttn w = Some (Inr f)"
  shows "length (fragments f) = unat (ff_fragments_in_this_frame f)"
proof -
  from assms obtain frags where
    loop: "emplace_loop C w cid fno 0 0 [] = Some (Inr frags)" and ne: "frags \<noteq> []"
    by (auto simp: FragmentedFrame_outgoing_def split: option.splits sum.splits if_splits)
  let ?frags1 = "butlast frags @ [set_time_to_next (last frags) ttn]"
  let ?n = "word_of_nat (length ?frags1) :: 16 word"
  from assms loop ne obtain frags2 where
    s: "set_all_fragments_in_this_frame ?frags1 ?n = Inr frags2"
    and f: "f = \<lparr>ff_connection_id = cid, ff_frame_no = fno,
                 ff_fragments_in_this_frame = ?n,
                 fragments = frags2, remaining_fragments = 0\<rparr>"
    by (auto simp: FragmentedFrame_outgoing_def Let_def split: sum.splits)
  from set_all_fragments_in_this_frame_Inr [OF s]
  have len2: "length frags2 = length ?frags1"
    and lt: "\<forall>p\<in>set ?frags1. fragment_no p < ?n" by simp_all
  have len1: "length ?frags1 = length frags" using ne by simp
  have nos: "map fragment_no ?frags1 = map fragment_no frags"
  proof -
    have "map fragment_no ?frags1 = map fragment_no (butlast frags @ [last frags])"
      by (simp add: set_time_to_next_def)
    with ne show ?thesis by simp
  qed
  have small: "length frags < 65536"
  proof (rule ccontr)
    assume "\<not> length frags < 65536"
    then have i: "65535 < length ?frags1" using len1 by simp
    then have "fragment_no (?frags1 ! 65535) = map fragment_no ?frags1 ! 65535"
      by (simp only: nth_map)
    also have "\<dots> = map word_of_nat [0..<length frags] ! 65535"
      by (simp only: nos emplace_loop_numbers [OF loop])
    also have "\<dots> = (word_of_nat 65535 :: 16 word)"
      using i len1 by simp
    finally have "fragment_no (?frags1 ! 65535) = (65535 :: 16 word)" by simp
    moreover from lt i have "fragment_no (?frags1 ! 65535) < ?n"
      by (meson nth_mem)
    ultimately have "(65535 :: 16 word) < ?n" by simp
    then have "unat (65535 :: 16 word) < unat ?n" by (simp only: word_less_nat_alt)
    moreover have "unat ?n < 2 ^ 16" using unsigned_less [of ?n] by simp
    ultimately show False by simp
  qed
  then have "unat ?n = length frags" by (simp add: len1 unat_of_nat_16 del: length_append)
  with len2 len1 f show ?thesis by simp
qed

lemma add_packet_slot_count:
  "length (fragments (snd (add_packet f p))) = length (fragments f)
   \<and> ff_fragments_in_this_frame (snd (add_packet f p)) = ff_fragments_in_this_frame f"
  using add_packet_cases [of f p] by auto

lemma incoming_slot_count:
  assumes "FragmentedFrame_incoming cid p = Inr f"
  shows "length (fragments f) = unat (ff_fragments_in_this_frame f)"
proof -
  let ?f0 = "\<lparr>ff_connection_id = cid, ff_frame_no = frame_no p,
               ff_fragments_in_this_frame = fragments_in_this_frame p,
               fragments = replicate (unat (fragments_in_this_frame p)) Packet_empty,
               remaining_fragments = ucast (fragments_in_this_frame p)\<rparr>"
  from assms have "f = snd (add_packet ?f0 p)"
    by (auto simp: FragmentedFrame_incoming_def Let_def split: option.splits prod.splits)
  with add_packet_slot_count [of ?f0 p] show ?thesis by simp
qed

lemma reachable_slot_count:
  "reachable f \<Longrightarrow> length (fragments f) = unat (ff_fragments_in_this_frame f)"
proof (induction rule: reachable.induct)
  case (outgoing C cid fno ttn w f)
  then show ?case by (rule outgoing_slot_count)
next
  case (incoming p cid f)
  then show ?case by (simp add: incoming_slot_count)
next
  case (add f p r f')
  with add_packet_slot_count [of f p] show ?case by simp
qed

lemma send_never_incomplete:
  assumes "reachable f"
  shows "fst (send f socket) \<noteq> Some IncompleteFrame"
  using reachable_slot_count [OF assms] send_loop_not_incomplete [of "fragments f" socket]
  by (simp add: send_def)

section \<open>Parsing and serialising\<close>

text \<open>
  Claim C7 (incoming fragment parse rejection). For every input buffer, parsing fails with
  MalformedPacket if the buffer is shorter than the 14-byte header (so every 13-byte
  buffer is rejected), if the payload, the bytes from offset 14 on, is empty, or if the
  declared \<open>fragment_no\<close> is not below the declared \<open>fragments_in_this_frame\<close>; parsing
  fails in no other way. On success the fragment is valid, its five header fields are the
  little-endian reads at offsets 0, 2, 6, 8 and 10, and its payload is the rest of the
  buffer; and a buffer of more than 14 bytes whose declared \<open>fragment_no\<close> is in range is
  accepted.
\<close>

theorem parse_rejection:
  "(length buf < 14 \<longrightarrow> Packet_incoming buf = Inl MalformedPacket)
   \<and> (drop 14 buf = [] \<longrightarrow> Packet_incoming buf = Inl MalformedPacket)
   \<and> (\<forall>fragno nfrags. read_u16_le buf 6 = Inr fragno \<and> read_u16_le buf 8 = Inr nfrags
         \<and> fragno \<ge> nfrags \<longrightarrow> Packet_incoming buf = Inl MalformedPacket)
   \<and> (\<forall>e. Packet_incoming buf = Inl e \<longrightarrow> e = MalformedPacket)
   \<and> (\<forall>p. Packet_incoming buf = Inr p \<longrightarrow>
         valid p
         \<and> read_u16_le buf 0 = Inr (connection_id p)
         \<and> read_u32_le buf 2 = Inr (frame_no p)
         \<and> read_u16_le buf 6 = Inr (fragment_no p)
         \<and> read_u16_le buf 8 = Inr (fragments_in_this_frame p)
         \<and> read_u32_le buf 10 = Inr (time_to_next p)
         \<and> payload p = drop 14 buf
         \<and> fragment_no p < fragments_in_this_frame p \<and> payload p \<noteq> [])
   \<and> (\<forall>fragno nfrags. 14 < length buf \<and> read_u16_le buf 6 = Inr fragno
         \<and> read_u16_le buf 8 = Inr nfrags \<and> fragno < nfrags
         \<longrightarrow> (\<exists>p. Packet_incoming buf = Inr p))"
proof (cases "length buf < 14")
  case True
  then have "Packet_incoming buf = Inl MalformedPacket" by (rule Packet_incoming_short)
  with True show ?thesis by simp
next
  case False
  then have "14 \<le> length buf" by simp
  then obtain cid fno fragno nfrags ttn where r:
    "read_u16_le buf 0 = Inr cid" "read_u32_le buf 2 = Inr fno" "read_u16_le buf 6 = Inr fragno"
    "read_u16_le buf 8 = Inr nfrags" "read_u32_le buf 10 = Inr ttn"
    and p: "Packet_incoming buf =
       (if fragno \<ge> nfrags then Inl MalformedPacket
        else if length buf \<le> 14 then Inl MalformedPacket
        else Inr \<lparr>valid = True, connection_id = cid, frame_no = fno, fragment_no = fragno,
                   fragments_in_this_frame = nfrags, time_to_next = ttn,
                   payload = drop 14 buf\<rparr>)"
    by (rule Packet_incoming_long)
  show ?thesis
    using False by (auto simp: r p not_le split: if_splits)
qed

theorem parse_rejection_witness:
  "Packet_incoming [1, 0, 2, 0, 0, 0, 0, 0, 2, 0, 5, 0, 0] = Inl MalformedPacket
   \<and> Packet_incoming [1, 0, 2, 0, 0, 0, 0, 0, 2, 0, 5, 0, 0, 0] = Inl MalformedPacket
   \<and> Packet_incoming [1, 0, 2, 0, 0, 0, 2, 0, 2, 0, 5, 0, 0, 0, 9] = Inl MalformedPacket
   \<and> Packet_incoming [0x34, 0x12, 2, 0, 0, 0, 1, 0, 2, 0, 5, 0, 0, 0, 9]
       = Inr \<lparr>valid = True, connection_id = 0x1234, frame_no = 2, fragment_no = 1,
               fragments_in_this_frame = 2, time_to_next = 5, payload = [9]\<rparr>"
proof -
  have a: "Packet_incoming [1, 0, 2, 0, 0, 0, 0, 0, 2, 0, 5, 0, 0] = Inl MalformedPacket"
    using parse_rejection [of "[1, 0, 2, 0, 0, 0, 0, 0, 2, 0, 5, 0, 0]"] by simp
  have b: "Packet_incoming [1, 0, 2, 0, 0, 0, 0, 0, 2, 0, 5, 0, 0, 0] = Inl MalformedPacket"
    using parse_rejection [of "[1, 0, 2, 0, 0, 0, 0, 0, 2, 0, 5, 0, 0, 0]"] by simp
  have c: "Packet_incoming [1, 0, 2, 0, 0, 0, 2, 0, 2, 0, 5, 0, 0, 0, 9] = Inl MalformedPacket"
    using parse_rejection [of "[1, 0, 2, 0, 0, 0, 2, 0, 2, 0, 5, 0, 0, 0, 9]"]
    by (simp add: read_u16_le_def)
  have d: "Packet_incoming [0x34, 0x12, 2, 0, 0, 0, 1, 0, 2, 0, 5, 0, 0, 0, 9]
       = Inr \<lparr>valid = True, connection_id = 0x1234, frame_no = 2, fragment_no = 1,
               fragments_in_this_frame = 2, time_to_next = 5, payload = [9]\<rparr>"
    by (simp add: Packet_incoming_def read_u16_le_def read_u32_le_def rest_def word_le_nat_alt)
  from a b c d show ?thesis by simp
qed

text \<open>
  Claim C8 (header round-trip). For every valid fragment with
  \<open>fragments_in_this_frame > 0\<close>, \<open>fragment_no < fragments_in_this_frame\<close> and a non-empty
  payload, serialising succeeds and parsing the bytes gives back the same fragment, field
  by field; and parsing the 12-byte serialisation of any AckPacket gives back its
  \<open>connection_id\<close>, \<open>frame_no\<close>, \<open>fragment_no\<close> and \<open>avg_delay\<close>.
\<close>

theorem header_roundtrip:
  "(valid p \<and> fragments_in_this_frame p > 0 \<and> fragment_no p < fragments_in_this_frame p
      \<and> payload p \<noteq> []
     \<longrightarrow> (\<exists>s. Packet_to_string p = Inr s \<and> Packet_incoming s = Inr p))
   \<and> AckPacket_incoming (AckPacket_to_string a) = Inr a"
proof (intro conjI impI)
  assume h: "valid p \<and> fragments_in_this_frame p > 0
    \<and> fragment_no p < fragments_in_this_frame p \<and> payload p \<noteq> []"
  then obtain s where s: "Packet_to_string p = Inr s"
    by (simp add: Packet_to_string_def)
  have "Packet_incoming s = Inr p"
    using h by (simp add: Packet_incoming_def Packet_to_string_fields [OF s] not_le)
  with s show "\<exists>s. Packet_to_string p = Inr s \<and> Packet_incoming s = Inr p" by blast
next
  let ?a = "put_header_field_u16 (ack_connection_id a)"
  let ?b = "put_header_field_u32 (ack_frame_no a)"
  let ?c = "put_header_field_u16 (ack_fragment_no a)"
  let ?d = "put_header_field_u32 (ack_avg_delay a)"
  have 1: "read_u16_le (AckPacket_to_string a) 0 = Inr (ack_connection_id a)"
    using read_u16_le_put [of "[]" 0 "ack_connection_id a"] by (simp add: AckPacket_to_string_def)
  have 2: "read_u32_le (AckPacket_to_string a) 2 = Inr (ack_frame_no a)"
    using read_u32_le_put [of ?a 2 "ack_frame_no a" "?c @ ?d"]
    by (simp add: AckPacket_to_string_def length_put_u16)
  have 3: "read_u16_le (AckPacket_to_string a) 6 = Inr (ack_fragment_no a)"
    using read_u16_le_put [of "?a @ ?b" 6 "ack_fragment_no a" ?d]
    by (simp add: AckPacket_to_string_def length_put_u16 length_put_u32)
  have 4: "read_u32_le (AckPacket_to_string a) 8 = Inr (ack_avg_delay a)"
    using read_u32_le_put [of "?a @ ?b @ ?c" 8 "ack_avg_delay a" "[]"]
    by (simp add: AckPacket_to_string_def length_put_u16 length_put_u32)
  show "AckPacket_incoming (AckPacket_to_string a) = Inr a"
    by (simp add: AckPacket_incoming_def 1 2 3 4)
qed

theorem header_roundtrip_witness:
  "Packet_to_string \<lparr>valid = True, connection_id = 0x0102, frame_no = 0x03040506,
       fragment_no = 1, fragments_in_this_frame = 2, time_to_next = 0x0A0B0C0D, payload = [9]\<rparr>
     = Inr [2, 1, 6, 5, 4, 3, 1, 0, 2, 0, 0x0D, 0x0C, 0x0B, 0x0A, 9]
   \<and> Packet_incoming [2, 1, 6, 5, 4, 3, 1, 0, 2, 0, 0x0D, 0x0C, 0x0B, 0x0A, 9]
     = Inr \<lparr>valid = True, connection_id = 0x0102, frame_no = 0x03040506,
       fragment_no = 1, fragments_in_this_frame = 2, time_to_next = 0x0A0B0C0D, payload = [9]\<rparr>
   \<and> AckPacket_incoming (AckPacket_to_string \<lparr>ack_connection_id = 0x0102,
       ack_frame_no = 0x03040506, ack_fragment_no = 7, ack_avg_delay = 0x0A0B0C0D\<rparr>)
     = Inr \<lparr>ack_connection_id = 0x0102, ack_frame_no = 0x03040506, ack_fragment_no = 7,
       ack_avg_delay = 0x0A0B0C0D\<rparr>"
proof -
  let ?p = "\<lparr>valid = True, connection_id = 0x0102, frame_no = 0x03040506,
       fragment_no = 1, fragments_in_this_frame = 2, time_to_next = 0x0A0B0C0D, payload = [9]\<rparr>"
  have s: "Packet_to_string ?p = Inr [2, 1, 6, 5, 4, 3, 1, 0, 2, 0, 0x0D, 0x0C, 0x0B, 0x0A, 9]"
    by (simp add: Packet_to_string_def put_header_field_u16_def put_header_field_u32_def)
  from header_roundtrip [of ?p] s
  have "Packet_incoming [2, 1, 6, 5, 4, 3, 1, 0, 2, 0, 0x0D, 0x0C, 0x0B, 0x0A, 9] = Inr ?p"
    by simp
  with s header_roundtrip [of ?p "\<lparr>ack_connection_id = 0x0102,
       ack_frame_no = 0x03040506, ack_fragment_no = 7, ack_avg_delay = 0x0A0B0C0D\<rparr>"]
  show ?thesis by simp
qed

section \<open>Partial frames\<close>

text \<open>
  Claim C3 (partial-prefix law). For every frame state and every \<open>k\<close>: if the slots
  \<open>0..k-1\<close> are valid and slot \<open>k\<close> is missing or invalid, whatever the slots above
  \<open>k\<close> hold, \<open>partial_frame\<close> is the concatenation of the payloads \<open>0..k-1\<close>. In
  particular it is empty whenever slot 0 is invalid.
\<close>

theorem partial_frame_prefix:
  "(k \<le> length (fragments f) \<and> (\<forall>i<k. valid (fragments f ! i))
      \<and> (k < length (fragments f) \<longrightarrow> \<not> valid (fragments f ! k))
     \<longrightarrow> partial_frame f = concat (map payload (take k (fragments f))))
   \<and> (fragments f \<noteq> [] \<and> \<not> valid (fragments f ! 0) \<longrightarrow> partial_frame f = [])"
proof (intro conjI impI)
  assume "k \<le> length (fragments f) \<and> (\<forall>i<k. valid (fragments f ! i))
      \<and> (k < length (fragments f) \<longrightarrow> \<not> valid (fragments f ! k))"
  then have "takeWhile valid (fragments f) = take k (fragments f)"
    by (intro takeWhile_prefix) auto
  then show "partial_frame f = concat (map payload (take k (fragments f)))"
    by (simp add: partial_frame_def append_valid_payloads_takeWhile)
next
  assume "fragments f \<noteq> [] \<and> \<not> valid (fragments f ! 0)"
  then have "takeWhile valid (fragments f) = take 0 (fragments f)"
    by (intro takeWhile_prefix) auto
  then show "partial_frame f = []"
    by (simp add: partial_frame_def append_valid_payloads_takeWhile)
qed

theorem partial_frame_prefix_witness:
  "partial_frame ex_frame_02 = [1, 2] \<and> partial_frame ex_frame_2 = []"
  using partial_frame_prefix [of 1 ex_frame_02] partial_frame_prefix [of 0 ex_frame_2]
  by (simp add: ex_frame_02_def ex_frame_2_def ex_packet0_def ex_packet2_def Packet_empty_def)

section \<open>Adding fragments\<close>

text \<open>
  Claim C4 (mismatch rejection with atomicity). For every frame and every fragment whose
  \<open>connection_id\<close>, \<open>frame_no\<close> or \<open>fragments_in_this_frame\<close> differs from the frame's,
  \<open>add_packet\<close> throws ProtocolMismatch and leaves the frame, its slots and
  \<open>remaining_fragments\<close> included, exactly as it was.
\<close>

theorem mismatch_rejected:
  assumes "connection_id p \<noteq> ff_connection_id f \<or> frame_no p \<noteq> ff_frame_no f
           \<or> fragments_in_this_frame p \<noteq> ff_fragments_in_this_frame f"
  shows "add_packet f p = (Some ProtocolMismatch, f)"
  using sanity_mismatch [OF assms] by (simp add: add_packet_def)

theorem mismatch_rejected_witness:
  "add_packet ex_frame_2 (ex_packet0\<lparr>connection_id := 8\<rparr>) = (Some ProtocolMismatch, ex_frame_2)
   \<and> add_packet ex_frame_2 (ex_packet0\<lparr>frame_no := 10\<rparr>) = (Some ProtocolMismatch, ex_frame_2)
   \<and> add_packet ex_frame_2 (ex_packet0\<lparr>fragments_in_this_frame := 4\<rparr>)
       = (Some ProtocolMismatch, ex_frame_2)"
  using mismatch_rejected [of "ex_packet0\<lparr>connection_id := 8\<rparr>" ex_frame_2]
    mismatch_rejected [of "ex_packet0\<lparr>frame_no := 10\<rparr>" ex_frame_2]
    mismatch_rejected [of "ex_packet0\<lparr>fragments_in_this_frame := 4\<rparr>" ex_frame_2]
  by (simp add: ex_frame_2_def ex_packet0_def)

text \<open>
  Claim C5 (idempotent add). A fragment is a packet built by the incoming or by the
  outgoing constructor, hence valid. For every frame, once \<open>add_packet\<close> has accepted a
  fragment, adding the same fragment again throws nothing and changes nothing:
  \<open>remaining_fragments\<close>, \<open>frame\<close> and \<open>partial_frame\<close> are what they were after the
  first call.
\<close>

theorem add_packet_idempotent:
  assumes "valid p" and "add_packet f p = (None, f1)"
  shows "add_packet f1 p = (None, f1)
         \<and> remaining_fragments (snd (add_packet f1 p)) = remaining_fragments f1
         \<and> frame (snd (add_packet f1 p)) = frame f1
         \<and> partial_frame (snd (add_packet f1 p)) = partial_frame f1"
proof -
  have "add_packet f1 p = (None, f1)"
  proof (cases "sanity_check f p")
    case (Some e)
    with assms show ?thesis by (simp add: add_packet_def)
  next
    case None
    show ?thesis
    proof (cases "valid (fragments f ! unat (fragment_no p))")
      case True
      with None assms show ?thesis
        by (simp add: add_packet_def Let_def split: if_splits)
    next
      case False
      with None assms(2) have lt: "unat (fragment_no p) < length (fragments f)"
        and f1: "f1 = f\<lparr>remaining_fragments := remaining_fragments f - 1,
                     fragments := (fragments f)[unat (fragment_no p) := p]\<rparr>"
        by (simp_all add: add_packet_def Let_def split: if_splits)
      have "sanity_check f1 p = None"
        using None by (simp add: f1 sanity_check_None_iff)
      moreover have "valid (fragments f1 ! unat (fragment_no p))"
        using lt assms(1) by (simp add: f1)
      moreover have "unat (fragment_no p) < length (fragments f1)"
        using lt by (simp add: f1)
      ultimately show ?thesis by (simp add: add_packet_def)
    qed
  qed
  then show ?thesis by simp
qed

theorem add_packet_idempotent_witness:
  "add_packet ex_frame_2 ex_packet0 = (None, ex_frame_02)
   \<and> add_packet ex_frame_02 ex_packet0 = (None, ex_frame_02)"
proof -
  have v: "valid ex_packet0" by (simp add: ex_packet0_def)
  have a: "add_packet ex_frame_2 ex_packet0 = (None, ex_frame_02)"
    by (simp add: add_packet_def sanity_check_def ex_frame_2_def ex_frame_02_def ex_packet0_def
      Packet_empty_def)
  from add_packet_idempotent [OF v a] a show ?thesis by simp
qed

text \<open>
  Claim C10 (first write wins). For every frame and every fragment that passes the sanity
  check and targets a slot that is already valid, \<open>add_packet\<close> throws nothing and leaves
  the whole frame unchanged, the stored payload included, whatever payload the new
  fragment carries.
\<close>

theorem first_write_wins:
  assumes "sanity_check f p = None"
      and "unat (fragment_no p) < length (fragments f)"
      and "valid (fragments f ! unat (fragment_no p))"
  shows "add_packet f p = (None, f)"
  using assms by (simp add: add_packet_def)

theorem first_write_wins_witness:
  "payload (ex_packet0\<lparr>payload := [8, 8, 8]\<rparr>) \<noteq> payload (fragments ex_frame_02 ! 0)
   \<and> add_packet ex_frame_02 (ex_packet0\<lparr>payload := [8, 8, 8]\<rparr>) = (None, ex_frame_02)"
  using first_write_wins [of ex_frame_02 "ex_packet0\<lparr>payload := [8, 8, 8]\<rparr>"]
  by (simp add: sanity_check_def ex_frame_02_def ex_packet0_def)

section \<open>The counter of remaining fragments\<close>

text \<open>
  Claim C9 (remaining-fragments invariant). For every frame reachable through either
  constructor followed by any sequence of \<open>add_packet\<close> calls, \<open>remaining_fragments\<close> is
  the number of invalid slots. A further \<open>add_packet\<close> either leaves the frame as it is, or
  makes exactly the slot of the fragment valid and decrements the counter by exactly one,
  without wrapping around.
\<close>

theorem remaining_fragments_invariant:
  assumes "reachable f"
  shows "unat (remaining_fragments f) = length (filter (\<lambda>p. \<not> valid p) (fragments f))
    \<and> (\<forall>p. valid p \<longrightarrow>
          snd (add_packet f p) = f
          \<or> (\<not> valid (fragments f ! unat (fragment_no p))
             \<and> fragments (snd (add_packet f p)) = (fragments f)[unat (fragment_no p) := p]
             \<and> valid (fragments (snd (add_packet f p)) ! unat (fragment_no p))
             \<and> Suc (unat (remaining_fragments (snd (add_packet f p))))
                 = unat (remaining_fragments f)))"
proof -
  from assms have inv: "unat (remaining_fragments f) = invalid_slots f"
  proof induction
    case (outgoing C cid fno ttn w f)
    from outgoing_all_valid [OF this]
    have "filter (\<lambda>p. \<not> valid p) (fragments f) = []" and "remaining_fragments f = 0"
      by (auto simp: list_all_iff filter_empty_conv)
    then show ?case by (simp add: invalid_slots_def)
  next
    case (incoming p cid f)
    then show ?case by (rule incoming_invariant)
  next
    case (add f p r f')
    from add_packet_invariant [OF add.IH add.hyps(2)] add.hyps(3) show ?case by simp
  qed
  have step: "snd (add_packet f p) = f
          \<or> (\<not> valid (fragments f ! unat (fragment_no p))
             \<and> fragments (snd (add_packet f p)) = (fragments f)[unat (fragment_no p) := p]
             \<and> valid (fragments (snd (add_packet f p)) ! unat (fragment_no p))
             \<and> Suc (unat (remaining_fragments (snd (add_packet f p))))
                 = unat (remaining_fragments f))" if v: "valid p" for p
  proof -
    from add_packet_cases [of f p] show ?thesis
    proof (elim disjE conjE)
      assume "snd (add_packet f p) = f"
      then show ?thesis by simp
    next
      assume stored: "fst (add_packet f p) = None"
        "unat (fragment_no p) < length (fragments f)"
        "\<not> valid (fragments f ! unat (fragment_no p))"
        "snd (add_packet f p) = f\<lparr>remaining_fragments := remaining_fragments f - 1,
             fragments := (fragments f)[unat (fragment_no p) := p]\<rparr>"
      from filter_invalid_update [OF stored(2) stored(3) v]
      have "Suc (invalid_slots (snd (add_packet f p))) = invalid_slots f"
        by (simp add: invalid_slots_def stored(4))
      with add_packet_invariant [OF inv v] inv
      have "Suc (unat (remaining_fragments (snd (add_packet f p)))) = unat (remaining_fragments f)"
        by simp
      with stored v show ?thesis by simp
    qed
  qed
  from inv step show ?thesis by (simp add: invalid_slots_def)
qed

theorem remaining_fragments_invariant_witness:
  "reachable ex_frame_02
   \<and> unat (remaining_fragments ex_frame_02) = 1
   \<and> length (filter (\<lambda>p. \<not> valid p) (fragments ex_frame_02)) = 1"
proof -
  have "valid ex_packet2" by (simp add: ex_packet2_def)
  then have "reachable ex_frame_2" using ex_incoming by (rule reachable.incoming)
  moreover have "valid ex_packet0" by (simp add: ex_packet0_def)
  ultimately have r: "reachable ex_frame_02" using ex_add by (rule reachable.add)
  have "unat (remaining_fragments ex_frame_02) = 1" by (simp add: ex_frame_02_def)
  with r remaining_fragments_invariant [OF r] show ?thesis by simp
qed

section \<open>Reconstructing and sending\<close>

text \<open>
  Claim C6 (IncompleteFrame). \<open>frame\<close> throws IncompleteFrame exactly when \<open>complete\<close> is
  false, and \<open>send\<close> is to throw IncompleteFrame whenever the frame does not hold all its
  fragments yet. \<open>frame\<close> does (\<open>frame_incomplete_iff\<close>); \<open>send\<close> does not. Its guard
  compares the size of the vector with \<open>fragments_in_this_frame_\<close>, which are equal in every
  reachable frame (\<open>send_never_incomplete\<close>), where \<open>frame\<close> asks \<open>complete\<close>. The theorem
  runs \<open>send\<close> on the incoming frame founded by the last of three fragments, to which the
  first one is then added. Slot 1 is empty, \<open>complete\<close> is false and \<open>frame\<close> throws
  IncompleteFrame; \<open>send\<close> passes its guard, hands the first fragment to the socket and
  stops at the assertion \<open>fragments_in_this_frame_ > 0\<close> of \<open>to_string\<close> on the empty slot.
\<close>

theorem send_unfinished_frame:
  "FragmentedFrame_incoming 7 ex_packet2 = Inr ex_frame_2
   \<and> add_packet ex_frame_2 ex_packet0 = (None, ex_frame_02)
   \<and> \<not> valid (fragments ex_frame_02 ! 1)
   \<and> \<not> complete ex_frame_02
   \<and> frame ex_frame_02 = Inl IncompleteFrame
   \<and> send ex_frame_02 [] = (Some AssertionFailed, [[7, 0, 9, 0, 0, 0, 0, 0, 3, 0, 0, 0, 0, 0, 1, 2]])"
proof -
  have "send ex_frame_02 [] = (Some AssertionFailed, [[7, 0, 9, 0, 0, 0, 0, 0, 3, 0, 0, 0, 0, 0, 1, 2]])"
    by (simp add: send_def ex_frame_02_def ex_packet0_def ex_packet2_def Packet_empty_def
        Packet_to_string_def put_header_field_u16_def put_header_field_u32_def)
  moreover have "\<not> valid (fragments ex_frame_02 ! 1)" "\<not> complete ex_frame_02"
    by (simp_all add: ex_frame_02_def Packet_empty_def complete_def)
  moreover have "frame ex_frame_02 = Inl IncompleteFrame"
    by (simp add: frame_def complete_def ex_frame_02_def)
  ultimately show ?thesis using ex_incoming ex_add by simp
qed

section \<open>Splitting and reassembling\<close>

text \<open>
  Claim C2 (fragment count determinism), amended. For every non-empty buffer \<open>B\<close> and
  payload cap \<open>C \<ge> 1\<close> such that \<open>ceil(len(B) / C)\<close> is at most 65535, the largest value
  of the 16-bit field \<open>fragments_in_this_frame\<close>, the outgoing constructor returns a frame
  of exactly \<open>ceil(len(B) / C)\<close> fragments, the payload of the last one has length
  \<open>len(B) - (count - 1) * C\<close>, and no payload is empty.
\<close>

theorem fragment_count_determinism:
  assumes "B \<noteq> []" and "1 \<le> C" and "length B \<le> 65535 * C"
  shows "\<exists>F. FragmentedFrame_outgoing C cid fno ttn B = Some (Inr F)
          \<and> length (fragments F) = (length B + C - 1) div C
          \<and> length (payload (last (fragments F))) = length B - (length (fragments F) - 1) * C
          \<and> (\<forall>p\<in>set (fragments F). payload p \<noteq> [])"
proof -
  let ?k = "fragment_count C B"
  let ?F = "map (outgoing_fragment C cid fno ttn B) [0..<?k]"
  from assms(3) have k: "?k \<le> 65535" by (simp add: fragment_count_le_iff [OF assms(2)])
  note out = outgoing_result [OF assms(2) assms(1) k, of cid fno ttn]
  from assms(1) have "0 * C < length B" by simp
  then have k0: "0 < ?k" by (simp only: less_fragment_count_iff [OF assms(2)])
  have len: "length ?F = (length B + C - 1) div C" by (simp add: fragment_count_def)
  have ne: "\<forall>p\<in>set ?F. payload p \<noteq> []"
  proof
    fix p assume "p \<in> set ?F"
    then obtain i where i: "i < ?k" and p: "p = outgoing_fragment C cid fno ttn B i" by auto
    from i have "i * C < length B" by (simp add: less_fragment_count_iff [OF assms(2)])
    with assms(2) show "payload p \<noteq> []" by (simp add: p outgoing_fragment_def)
  qed
  have lastF: "last ?F = outgoing_fragment C cid fno ttn B (?k - 1)"
    using k0 by (simp add: last_map last_upt)
  have "(?k - 1) * C < length B"
    using k0 by (simp add: less_fragment_count_iff [OF assms(2), symmetric])
  moreover have "length B \<le> ?k * C"
    using fragment_count_le_iff [OF assms(2), of B ?k] by simp
  then have "length B - (?k - 1) * C \<le> C"
    using k0 by (cases ?k) simp_all
  ultimately have "length (payload (last ?F)) = length B - (length ?F - 1) * C"
    by (simp add: lastF outgoing_fragment_def min_def)
  with out len ne show ?thesis by simp
qed

theorem fragment_count_determinism_witness:
  "FragmentedFrame_outgoing 2 7 9 5 [1, 2, 3, 4, 5] = Some (Inr ex_frame_012)
   \<and> length (fragments ex_frame_012) = 3
   \<and> length (payload (last (fragments ex_frame_012))) = 1
   \<and> map payload (fragments ex_frame_012) = [[1, 2], [3, 4], [5]]"
proof -
  have o: "FragmentedFrame_outgoing 2 7 9 5 [1, 2, 3, 4, 5] = Some (Inr ex_frame_012)"
    by code_simp
  from fragment_count_determinism [of "[1, 2, 3, 4, 5]" 2 7 9 5] o
  have "length (fragments ex_frame_012) = 3
    \<and> length (payload (last (fragments ex_frame_012))) = 1"
    by simp
  moreover have "map payload (fragments ex_frame_012) = [[1, 2], [3, 4], [5]]"
    by (simp add: ex_frame_012_def ex_packet0_def ex_packet1_def ex_packet2_def)
  ultimately show ?thesis using o by simp
qed

text \<open>
  The claim as stated fails beyond 65535 fragments. A buffer of 65537 bytes and a cap of 1
  ask for 65537 fragments: after fragment 65535 the 16-bit loop counter wraps around to 0,
  the next packet starts again at byte 0 of the frame, and \<open>next_fragment_start\<close> never
  reaches the size of the frame. The constructor does not return (on a machine, until the
  vector has used up the memory), so it produces no fragments at all.
\<close>

theorem fragment_count_overflow_counterexample:
  "replicate 65537 (0 :: byte) \<noteq> [] \<and> (1 :: nat) \<le> 1
   \<and> FragmentedFrame_outgoing 1 7 9 5 (replicate 65537 0) = None"
  using outgoing_diverges [of 1 "replicate 65537 (0 :: byte)" 7 9 5] by simp

text \<open>
  Claim C1 (split/reassemble round-trip), amended. For every non-empty buffer \<open>B\<close> and
  payload cap \<open>C \<ge> 1\<close> such that \<open>len(B) \<le> 65535 * C\<close>, the outgoing constructor returns
  a frame, and feeding its fragments in any permutation into a fresh incoming frame, founded
  by the first one and completed by \<open>add_packet\<close> for the others, throws nothing and gives
  a frame for which \<open>complete\<close> is true and \<open>frame\<close> returns \<open>B\<close>.
\<close>

theorem split_reassemble_roundtrip:
  assumes "B \<noteq> []" and "1 \<le> C" and "length B \<le> 65535 * C"
  shows "\<exists>F. FragmentedFrame_outgoing C cid fno ttn B = Some (Inr F)
          \<and> (\<forall>q qs. mset (q # qs) = mset (fragments F) \<longrightarrow>
                (\<exists>h. receive_fragments cid q qs = Inr h \<and> complete h \<and> frame h = Inr B))"
proof -
  let ?k = "fragment_count C B"
  let ?F = "map (outgoing_fragment C cid fno ttn B) [0..<?k]"
  from assms(3) have k: "?k \<le> 65535" by (simp add: fragment_count_le_iff [OF assms(2)])
  note out = outgoing_result [OF assms(2) assms(1) k, of cid fno ttn]
  have wn: "well_numbered cid fno ?F" using k by (rule outgoing_well_numbered)
  have "\<exists>h. receive_fragments cid q qs = Inr h \<and> complete h \<and> frame h = Inr B"
    if "mset (q # qs) = mset ?F" for q qs
  proof -
    from receive_any_order [OF wn that] obtain h where
      h: "receive_fragments cid q qs = Inr h" "complete h" "fragments h = ?F"
      by blast
    from h(2,3) have "frame h = Inr (concat (map payload ?F))"
      by (simp add: frame_def append_payloads_concat)
    with h outgoing_payloads [OF assms(2), of cid fno ttn B] show ?thesis by simp
  qed
  with out show ?thesis by simp
qed

theorem split_reassemble_roundtrip_witness:
  "FragmentedFrame_outgoing 2 7 9 5 [1, 2, 3, 4, 5] = Some (Inr ex_frame_012)
   \<and> receive_fragments 7 ex_packet2 [ex_packet0, ex_packet1] = Inr ex_frame_012
   \<and> complete ex_frame_012
   \<and> frame ex_frame_012 = Inr [1, 2, 3, 4, 5]"
proof -
  have o: "FragmentedFrame_outgoing 2 7 9 5 [1, 2, 3, 4, 5] = Some (Inr ex_frame_012)"
    by code_simp
  have r: "receive_fragments 7 ex_packet2 [ex_packet0, ex_packet1] = Inr ex_frame_012"
    by code_simp
  have m: "mset (ex_packet2 # [ex_packet0, ex_packet1]) = mset (fragments ex_frame_012)"
    by (simp add: ex_frame_012_def)
  have "\<exists>F. FragmentedFrame_outgoing 2 7 9 5 [1, 2, 3, 4, 5] = Some (Inr F)
          \<and> (\<forall>q qs. mset (q # qs) = mset (fragments F) \<longrightarrow>
                (\<exists>h. receive_fragments 7 q qs = Inr h \<and> complete h
                   \<and> frame h = Inr [1, 2, 3, 4, 5]))"
    by (rule split_reassemble_roundtrip) simp_all
  then obtain F where F: "FragmentedFrame_outgoing 2 7 9 5 [1, 2, 3, 4, 5] = Some (Inr F)"
    and a: "\<forall>q qs. mset (q # qs) = mset (fragments F) \<longrightarrow>
                (\<exists>h. receive_fragments 7 q qs = Inr h \<and> complete h
                   \<and> frame h = Inr [1, 2, 3, 4, 5])"
    by blast
  from F o have "F = ex_frame_012" by simp
  with a m obtain h where "receive_fragments 7 ex_packet2 [ex_packet0, ex_packet1] = Inr h"
    "complete h" "frame h = Inr [1, 2, 3, 4, 5]"
    by blast
  with o r show ?thesis by simp
qed

text \<open>
  The claim as stated fails beyond 65535 fragments: a buffer of 65536 bytes and a cap of 1
  make 65536 fragments, the fragment count wraps around to 0 in its 16-bit field and the
  outgoing constructor stops at the assertion of \<open>set_fragments_in_this_frame\<close>. There is
  no frame to send.
\<close>

theorem split_overflow_counterexample:
  "replicate 65536 (0 :: byte) \<noteq> [] \<and> (1 :: nat) \<le> 1
   \<and> FragmentedFrame_outgoing 1 7 9 5 (replicate 65536 0) = Some (Inl AssertionFailed)"
proof -
  have "fragment_count 1 (replicate 65536 (0 :: byte)) = 65536"
    by (simp add: fragment_count_def)
  from outgoing_overflow [OF _ this, of 7 9 5] show ?thesis by simp
qed

end
